theory Spec2Isabelle
  imports Main "HOL-Library.Multiset" "HOL-Library.Log_Nat"
begin

section \<open>Data model (types.ts)\<close>

text \<open>
  The option keys \<^verbatim>\<open>'A' | 'B' | 'C' | 'D'\<close> are a four-element enumeration. A
  \<^verbatim>\<open>Question\<close> carries its \<^verbatim>\<open>id\<close> (here \<open>qid\<close>, since \<open>id\<close> is the identity
  function of HOL), its text, the four option texts and the correct key. JavaScript
  numbers that only ever hold integers (ids, indices, counts, timestamps) are \<open>int\<close>.
\<close>

datatype OptionKey = OptA | OptB | OptC | OptD

record Options =
  textA :: string
  textB :: string
  textC :: string
  textD :: string

record Question =
  qid :: int
  question :: string
  options :: Options
  correctAnswer :: OptionKey

datatype QuizMode = Practice | Exam

datatype QuizState = Setup | Quiz | Results

record QuizConfig =
  mode :: QuizMode
  shuffle :: bool
  startQuestion :: int
  endQuestion :: int

record UserAnswer =
  questionId :: int
  selectedOption :: "OptionKey option"
  isCorrect :: bool
  timestamp :: int

section \<open>JavaScript objects used as dictionaries\<close>

text \<open>
  \<^verbatim>\<open>Record<number, UserAnswer>\<close> is a plain object. It is modelled as an association
  list whose keys are pairwise distinct (\<open>wf_obj\<close>); the order of the entries is not
  observed by any modelled operation. \<open>obj_get\<close> is the property read \<^verbatim>\<open>o[k]\<close>
  (\<open>None\<close> for \<^verbatim>\<open>undefined\<close>), \<open>obj_put\<close> is the spread-and-override
  \<^verbatim>\<open>{...o, [k]: v}\<close>, which replaces the value of an existing key and adds a new
  key otherwise.
\<close>

type_synonym Answers = "(int \<times> UserAnswer) list"

definition wf_obj :: "('k \<times> 'v) list \<Rightarrow> bool" where
  "wf_obj obj = distinct (map fst obj)"

definition Object_keys :: "('k \<times> 'v) list \<Rightarrow> 'k list" where
  "Object_keys obj = map fst obj"

definition Object_values :: "('k \<times> 'v) list \<Rightarrow> 'v list" where
  "Object_values obj = map snd obj"

definition obj_get :: "('k \<times> 'v) list \<Rightarrow> 'k \<Rightarrow> 'v option" where
  "obj_get obj k = map_of obj k"

fun obj_put :: "'k \<Rightarrow> 'v \<Rightarrow> ('k \<times> 'v) list \<Rightarrow> ('k \<times> 'v) list" where
  "obj_put k v [] = [(k, v)]"
| "obj_put k v ((k', v') # rest) =
     (if k' = k then (k, v) # rest else (k', v') # obj_put k v rest)"

section \<open>Double-precision arithmetic\<close>

text \<open>
  \<^verbatim>\<open>correct / total\<close> and \<^verbatim>\<open>(...) * 100\<close> are IEEE 754 binary64 operations: the
  exact quotient or product is rounded to the nearest number \<open>m * 2 ^ e\<close> with a 53-bit
  significand \<open>m\<close>, ties going to the even significand. Doubles are represented by the
  rational number they denote. The operands here are array lengths (below \<open>2 ^ 32\<close>)
  and the constant 100, so every result is zero or a normal double: overflow,
  subnormals, negative numbers, infinities and NaN do not arise and are not modelled
  (non-positive arguments of \<open>double_of\<close> are mapped to 0).
\<close>

definition pow2 :: "int \<Rightarrow> rat" where
  "pow2 e = (if 0 \<le> e then 2 ^ nat e else 1 / 2 ^ nat (- e))"

definition round_half_even :: "rat \<Rightarrow> int" where
  "round_half_even x =
     (let f = \<lfloor>x\<rfloor>; d = x - of_int f
      in if d < 1 / 2 then f
         else if 1 / 2 < d then f + 1
         else if even f then f else f + 1)"

definition double_exponent :: "rat \<Rightarrow> int" where
  \<comment> \<open>the \<open>e\<close> with \<open>2 ^ 52 \<le> x / 2 ^ e < 2 ^ 53\<close>, for \<open>0 < x\<close>\<close>
  "double_exponent x =
     (let (a, b) = quotient_of x;
          e = bitlen a - bitlen b - 53
      in if x < pow2 (e + 53) then e else e + 1)"

definition double_of :: "rat \<Rightarrow> rat" where
  "double_of x =
     (if x \<le> 0 then 0
      else let e = double_exponent x
           in of_int (round_half_even (x / pow2 e)) * pow2 e)"

definition double_div :: "rat \<Rightarrow> rat \<Rightarrow> rat" where
  "double_div x y = double_of (x / y)"

definition double_mul :: "rat \<Rightarrow> rat \<Rightarrow> rat" where
  "double_mul x y = double_of (x * y)"

definition Math_round :: "rat \<Rightarrow> int" where
  \<comment> \<open>\<^verbatim>\<open>Math.round\<close>: the nearest integer, a tie going towards plus infinity\<close>
  "Math_round x = \<lfloor>x + 1 / 2\<rfloor>"

section \<open>ResultsScreen: statistics, performance band, review filter\<close>

text \<open>
  \<open>stats\<close> is the \<^verbatim>\<open>stats\<close> memo, \<open>getPerformanceMessage\<close> the function of that name
  (its \<^verbatim>\<open>text\<close> field is \<open>ptext\<close> here, \<open>text\<close> being a keyword), \<open>reviewQuestions\<close>
  the memo of that name with the state \<^verbatim>\<open>showOnlyIncorrect\<close> as an argument. The counts
  are integers, so \<open>unanswered\<close> is negative when the answers object has more keys than
  there are selected questions.
\<close>

record Stats =
  total :: int
  answered :: int
  correct :: int
  incorrect :: int
  unanswered :: int
  percentage :: int

definition stats :: "Question list \<Rightarrow> Answers \<Rightarrow> Stats" where
  "stats questions answers =
     (let total = int (length questions);
          answered = int (length (Object_keys answers));
          correct = int (length (filter (\<lambda>a. isCorrect a) (Object_values answers)));
          incorrect = answered - correct;
          unanswered = total - answered;
          percentage =
            (if 0 < total
             then Math_round (double_mul (double_div (of_int correct) (of_int total)) 100)
             else 0)
      in \<lparr>total = total, answered = answered, correct = correct,
          incorrect = incorrect, unanswered = unanswered, percentage = percentage\<rparr>)"

record PerformanceMessage =
  ptext :: string
  color :: string
  bg :: string

definition getPerformanceMessage :: "Stats \<Rightarrow> PerformanceMessage" where
  "getPerformanceMessage st =
     (if 90 \<le> percentage st
        then \<lparr>ptext = ''Excellent!'', color = ''text-green-600'', bg = ''bg-green-100''\<rparr>
      else if 75 \<le> percentage st
        then \<lparr>ptext = ''Great Job!'', color = ''text-emerald-600'', bg = ''bg-emerald-100''\<rparr>
      else if 60 \<le> percentage st
        then \<lparr>ptext = ''Good Effort!'', color = ''text-blue-600'', bg = ''bg-blue-100''\<rparr>
      else if 40 \<le> percentage st
        then \<lparr>ptext = ''Keep Practicing!'', color = ''text-amber-600'', bg = ''bg-amber-100''\<rparr>
      else \<lparr>ptext = ''Need More Practice'', color = ''text-red-600'', bg = ''bg-red-100''\<rparr>)"

definition reviewQuestions :: "Question list \<Rightarrow> Answers \<Rightarrow> bool \<Rightarrow> Question list" where
  "reviewQuestions questions answers showOnlyIncorrect =
     (if showOnlyIncorrect
      then filter (\<lambda>q. case obj_get answers (qid q) of
                          None \<Rightarrow> False
                        | Some answer \<Rightarrow> \<not> isCorrect answer) questions
      else questions)"

section \<open>Arrays in the heap\<close>

text \<open>
  Arrays are mutable objects reached through references. The heap is the list of all
  arrays allocated so far and a reference is a position in it, so that two references
  alias exactly when they are equal; \<open>alloc\<close> adds a fresh array at the end. This
  makes visible which array an in-place update touches.
\<close>

type_synonym 'a heap = "'a list list"

definition alloc :: "'a heap \<Rightarrow> 'a list \<Rightarrow> 'a heap \<times> nat" where
  "alloc h xs = (h @ [xs], length h)"

definition arr :: "'a heap \<Rightarrow> nat \<Rightarrow> 'a list" where
  "arr h r = h ! r"

definition swap :: "'a heap \<Rightarrow> nat \<Rightarrow> nat \<Rightarrow> nat \<Rightarrow> 'a heap" where
  \<comment> \<open>\<^verbatim>\<open>[a[i], a[j]] = [a[j], a[i]]\<close>: both reads happen before the two writes.
      The model covers indices inside the array, which is all the shuffle uses.\<close>
  "swap h r i j =
     (let x = arr h r ! j; y = arr h r ! i
      in h[r := (arr h r)[i := x, j := y]])"

definition slice :: "'a list \<Rightarrow> int \<Rightarrow> int \<Rightarrow> 'a list" where
  \<comment> \<open>\<^verbatim>\<open>Array.prototype.slice(start, end)\<close> on integer arguments: a negative argument
      counts from the end, both are clamped to the array.\<close>
  "slice xs start end' =
     (let len = int (length xs);
          k = (if start < 0 then max (len + start) 0 else min start len);
          final = (if end' < 0 then max (len + end') 0 else min end' len)
      in take (nat (final - k)) (drop (nat k) xs))"

section \<open>App: shuffling and starting the quiz\<close>

text \<open>
  \<open>shuffleArray\<close> copies its argument into a fresh array and runs the Fisher-Yates loop
  on the copy. \<^verbatim>\<open>Math.floor(Math.random() * (i + 1))\<close> is the only use of randomness;
  the model takes the drawn indices as a parameter \<open>rnd\<close>, where \<open>rnd i\<close> is the index
  drawn in the iteration with loop variable \<open>i\<close> (each value of \<open>i\<close> occurs at most
  once). Since \<^verbatim>\<open>Math.random()\<close> lies in \<open>[0, 1)\<close>, a drawn index satisfies
  \<open>rnd i \<le> i\<close>. The loop \<^verbatim>\<open>for (i = length - 1; i > 0; i--)\<close> does nothing on arrays
  of length 0 or 1.
\<close>

fun shuffle_loop :: "(nat \<Rightarrow> nat) \<Rightarrow> nat \<Rightarrow> 'a heap \<Rightarrow> nat \<Rightarrow> 'a heap" where
  "shuffle_loop rnd 0 h shuffled = h"
| "shuffle_loop rnd (Suc i) h shuffled =
     shuffle_loop rnd i (swap h shuffled (Suc i) (rnd (Suc i))) shuffled"

definition shuffleArray :: "(nat \<Rightarrow> nat) \<Rightarrow> 'a heap \<Rightarrow> nat \<Rightarrow> 'a heap \<times> nat" where
  "shuffleArray rnd h array =
     (let (h1, shuffled) = alloc h (arr h array)
      in (shuffle_loop rnd (length (arr h1 shuffled) - 1) h1 shuffled, shuffled))"

record AppState =
  questions :: nat
  quizState :: QuizState
  quizConfig :: "QuizConfig option"
  selectedQuestions :: nat
  loading :: bool

definition startQuiz ::
  "(nat \<Rightarrow> nat) \<Rightarrow> QuizConfig \<Rightarrow> Question heap \<times> AppState \<Rightarrow> Question heap \<times> AppState" where
  "startQuiz rnd config = (\<lambda>(h, app).
     let startIndex = max 0 (startQuestion config - 1);
         endIndex = min (int (length (arr h (questions app)))) (endQuestion config);
         (h1, filtered) = alloc h (slice (arr h (questions app)) startIndex endIndex);
         (h2, filtered') = (if shuffle config then shuffleArray rnd h1 filtered
                            else (h1, filtered))
     in (h2, app\<lparr>quizConfig := Some config, selectedQuestions := filtered',
                  quizState := Quiz\<rparr>))"

definition finishQuiz :: "AppState \<Rightarrow> AppState" where
  "finishQuiz app = app\<lparr>quizState := Results\<rparr>"

definition restartQuiz :: "Question heap \<times> AppState \<Rightarrow> Question heap \<times> AppState" where
  "restartQuiz = (\<lambda>(h, app).
     let (h1, empty) = alloc h []
     in (h1, app\<lparr>quizState := Setup, quizConfig := None, selectedQuestions := empty\<rparr>))"

section \<open>QuizSetup: validation of the chosen range\<close>

text \<open>
  The component state of \<^verbatim>\<open>QuizSetup\<close> (its fields carry a \<open>ui\<close> prefix, the plain
  names being the fields of \<open>QuizConfig\<close>). \<open>handleStart\<close> returns the new state and
  the argument of the \<^verbatim>\<open>onStart\<close> call, \<open>None\<close> when \<^verbatim>\<open>onStart\<close> is not called.
  \<^verbatim>\<open>totalQuestions\<close> is the length of the question array.
\<close>

record SetupState =
  uiMode :: QuizMode
  uiShuffle :: bool
  uiStartQuestion :: int
  uiEndQuestion :: int
  error :: "string option"

fun show_nat :: "nat \<Rightarrow> string" where
  "show_nat n =
     (if n < 10 then [''0123456789'' ! n]
      else show_nat (n div 10) @ [''0123456789'' ! (n mod 10)])"

definition handleStart :: "nat \<Rightarrow> SetupState \<Rightarrow> SetupState \<times> QuizConfig option" where
  "handleStart totalQuestions s =
     (if uiStartQuestion s < 1 \<or> int totalQuestions < uiStartQuestion s
        then (s\<lparr>error := Some (''Start question must be between 1 and '' @
                                show_nat totalQuestions)\<rparr>, None)
      else if uiEndQuestion s < 1 \<or> int totalQuestions < uiEndQuestion s
        then (s\<lparr>error := Some (''End question must be between 1 and '' @
                                show_nat totalQuestions)\<rparr>, None)
      else if uiEndQuestion s < uiStartQuestion s
        then (s\<lparr>error := Some ''Start question must be less than or equal to end question''\<rparr>,
              None)
      else if uiEndQuestion s - uiStartQuestion s + 1 < 5
        then (s\<lparr>error := Some ''Please select at least 5 questions''\<rparr>, None)
      else (s\<lparr>error := None\<rparr>,
            Some \<lparr>mode = uiMode s, shuffle = uiShuffle s,
                  startQuestion = uiStartQuestion s, endQuestion = uiEndQuestion s\<rparr>))"

section \<open>QuizScreen: the running session\<close>

text \<open>
  The component state of \<^verbatim>\<open>QuizScreen\<close> is \<open>QuizScreenState\<close>. Around it, \<open>World\<close>
  holds what the handlers and effects reach outside the component: the timeouts that
  have been set and have neither fired nor been cleared (each with the
  \<^verbatim>\<open>currentIndex\<close> its callback closed over), the next timer handle (handles are
  positive and never reused), the session store, how often \<^verbatim>\<open>onFinish\<close> has been
  called, and whether the component is still mounted. The store maps a key to the
  value that \<^verbatim>\<open>JSON.parse\<close> gives back for the string written under it.
\<close>

datatype JsError = TypeError

record Timer =
  timerId :: nat
  delay :: nat
  capturedIndex :: int

record QuizScreenState =
  currentIndex :: int
  answers :: Answers
  showConfirmDialog :: bool
  flaggedQuestions :: "int list"
  autoAdvanceTimer :: "nat option"

record World =
  ui :: QuizScreenState
  pendingTimers :: "Timer list"
  nextTimer :: nat
  localStorage :: "(string \<times> Answers) list"
  onFinishCalls :: nat
  mounted :: bool

definition setTimeout :: "nat \<Rightarrow> int \<Rightarrow> World \<Rightarrow> World \<times> nat" where
  "setTimeout d ci w =
     (w\<lparr>pendingTimers := pendingTimers w @ [\<lparr>timerId = nextTimer w, delay = d, capturedIndex = ci\<rparr>],
        nextTimer := Suc (nextTimer w)\<rparr>,
      nextTimer w)"

definition clearTimeout :: "nat \<Rightarrow> World \<Rightarrow> World" where
  "clearTimeout t w = w\<lparr>pendingTimers := filter (\<lambda>x. timerId x \<noteq> t) (pendingTimers w)\<rparr>"

definition clear_if_set :: "nat option \<Rightarrow> World \<Rightarrow> World" where
  \<comment> \<open>\<^verbatim>\<open>if (autoAdvanceTimer) clearTimeout(autoAdvanceTimer)\<close>: \<^verbatim>\<open>null\<close> and 0 are falsy\<close>
  "clear_if_set timer w =
     (case timer of None \<Rightarrow> w | Some t \<Rightarrow> if t \<noteq> 0 then clearTimeout t w else w)"

definition setItem :: "string \<Rightarrow> Answers \<Rightarrow> World \<Rightarrow> World" where
  "setItem key v w = w\<lparr>localStorage := obj_put key v (localStorage w)\<rparr>"

definition save_if_nonempty :: "Answers \<Rightarrow> World \<Rightarrow> World" where
  \<comment> \<open>the body of the two saving effects\<close>
  "save_if_nonempty a w =
     (if 0 < length (Object_keys a) then setItem ''quizAnswers'' a w else w)"

definition loadAnswers :: "(string \<times> Answers) list \<Rightarrow> Answers" where
  \<comment> \<open>the \<^verbatim>\<open>answers\<close> memo of \<^verbatim>\<open>ResultsScreen\<close>\<close>
  "loadAnswers store = (case obj_get store ''quizAnswers'' of Some saved \<Rightarrow> saved | None \<Rightarrow> [])"

definition currentQuestion :: "Question list \<Rightarrow> QuizScreenState \<Rightarrow> Question option" where
  \<comment> \<open>\<^verbatim>\<open>questions[currentIndex]\<close>, \<open>None\<close> for \<^verbatim>\<open>undefined\<close>\<close>
  "currentQuestion qs s =
     (if 0 \<le> currentIndex s \<and> currentIndex s < int (length qs)
      then Some (qs ! nat (currentIndex s)) else None)"

definition answeredCount :: "QuizScreenState \<Rightarrow> int" where
  "answeredCount s = int (length (Object_keys (answers s)))"

definition allAnswered :: "Question list \<Rightarrow> QuizScreenState \<Rightarrow> bool" where
  "allAnswered qs s = (answeredCount s = int (length qs))"

definition isAnswered :: "Question \<Rightarrow> QuizScreenState \<Rightarrow> bool" where
  "isAnswered q s = (obj_get (answers s) (qid q) \<noteq> None)"

definition setCurrentIndex :: "int \<Rightarrow> World \<Rightarrow> World" where
  "setCurrentIndex i w = w\<lparr>ui := (ui w)\<lparr>currentIndex := i\<rparr>\<rparr>"

definition handlePrevious :: "World \<Rightarrow> World" where
  "handlePrevious w =
     (if 0 < currentIndex (ui w) then setCurrentIndex (currentIndex (ui w) - 1) w else w)"

definition handleSkip :: "Question list \<Rightarrow> World \<Rightarrow> World" where
  "handleSkip qs w =
     (if currentIndex (ui w) < int (length qs) - 1
      then setCurrentIndex (currentIndex (ui w) + 1) w else w)"

definition toggleFlag :: "Question \<Rightarrow> World \<Rightarrow> World" where
  "toggleFlag q w =
     w\<lparr>ui := (ui w)\<lparr>flaggedQuestions :=
        (if qid q \<in> set (flaggedQuestions (ui w))
         then filter (\<lambda>i. i \<noteq> qid q) (flaggedQuestions (ui w))
         else flaggedQuestions (ui w) @ [qid q])\<rparr>\<rparr>"

definition timerCallback :: "Question list \<Rightarrow> Timer \<Rightarrow> World \<Rightarrow> World" where
  \<comment> \<open>the guard reads the captured index, the update reads the current one\<close>
  "timerCallback qs tm w =
     (if capturedIndex tm < int (length qs) - 1
      then setCurrentIndex (currentIndex (ui w) + 1) w else w)"

definition handleAnswer :: "QuizMode \<Rightarrow> Question \<Rightarrow> OptionKey \<Rightarrow> int \<Rightarrow> World \<Rightarrow> World" where
  "handleAnswer m q option now w =
     (let isCorrect = (option = correctAnswer q);
          w1 = w\<lparr>ui := (ui w)\<lparr>answers :=
                 obj_put (qid q)
                   \<lparr>questionId = qid q, selectedOption = Some option,
                    isCorrect = isCorrect, timestamp = now\<rparr>
                   (answers (ui w))\<rparr>\<rparr>;
          delay = (if m = Practice then 1500 else 500);
          (w2, timer) = setTimeout delay (currentIndex (ui w)) w1
      in w2\<lparr>ui := (ui w2)\<lparr>autoAdvanceTimer := Some timer\<rparr>\<rparr>)"

definition onFinish :: "World \<Rightarrow> World" where
  "onFinish w = w\<lparr>onFinishCalls := Suc (onFinishCalls w)\<rparr>"

definition setShowConfirmDialog :: "bool \<Rightarrow> World \<Rightarrow> World" where
  "setShowConfirmDialog b w = w\<lparr>ui := (ui w)\<lparr>showConfirmDialog := b\<rparr>\<rparr>"

definition handleFinishClick :: "Question list \<Rightarrow> World \<Rightarrow> World" where
  "handleFinishClick qs w =
     (let w1 = clear_if_set (autoAdvanceTimer (ui w)) w;
          w2 = setItem ''quizAnswers'' (answers (ui w)) w1
      in if \<not> allAnswered qs (ui w) then setShowConfirmDialog True w2 else onFinish w2)"

definition jumpTo :: "nat \<Rightarrow> World \<Rightarrow> World" where
  \<comment> \<open>the click handler of the navigator dot with index \<open>idx\<close>\<close>
  "jumpTo idx w = setCurrentIndex (int idx) (clear_if_set (autoAdvanceTimer (ui w)) w)"

text \<open>
  React runs an event handler to its end, renders the new state and runs the effects
  of that render before the next event or timer callback is taken; \<open>commit\<close> is that
  second half. \<open>old\<close> is the world before the handler, \<open>answersSet\<close> tells whether the
  handler called \<^verbatim>\<open>setAnswers\<close> (which always stores a new object). The clean-ups of
  the effects whose dependencies changed run first (the save-on-unmount effect writes
  the previous \<^verbatim>\<open>answers\<close>, the timer effect clears the handle it closed over, which
  is the previous value of \<^verbatim>\<open>autoAdvanceTimer\<close> because that state is one of its
  dependencies), then the bodies (the saving effect writes the new \<^verbatim>\<open>answers\<close>). A
  call of \<^verbatim>\<open>onFinish\<close> makes \<^verbatim>\<open>App\<close> leave the quiz state, which unmounts the
  component and runs the clean-ups once more.
\<close>

definition unmount :: "World \<Rightarrow> World" where
  "unmount w =
     (clear_if_set (autoAdvanceTimer (ui w)) (save_if_nonempty (answers (ui w)) w))
       \<lparr>mounted := False\<rparr>"

definition commit :: "World \<Rightarrow> bool \<Rightarrow> World \<Rightarrow> World" where
  "commit old answersSet new =
     (let w1 = (if answersSet then save_if_nonempty (answers (ui old)) new else new);
          w2 = (if autoAdvanceTimer (ui new) \<noteq> autoAdvanceTimer (ui old)
                   \<or> currentIndex (ui new) \<noteq> currentIndex (ui old)
                then clear_if_set (autoAdvanceTimer (ui old)) w1 else w1);
          w3 = (if answersSet then save_if_nonempty (answers (ui new)) w2 else w2)
      in if onFinishCalls new \<noteq> onFinishCalls old then unmount w3 else w3)"

text \<open>
  The events are the clicks the rendered screen offers and the firing of a timeout.
  \<open>dispatch\<close> applies the guards of the markup (a disabled or absent control takes no
  click): the option buttons are disabled when \<^verbatim>\<open>mode === 'practice' && isAnswered\<close>,
  Previous is disabled at index 0, Skip is rendered before the last question and the
  Finish button in its place at the last one, there is one navigator dot per question,
  and the two dialog buttons exist while the dialog is open. A timeout fires only
  while it is pending, and is no longer pending afterwards.
\<close>

datatype Event =
    ClickOption OptionKey int
  | ClickPrevious
  | ClickSkip
  | ClickFlag
  | ClickDot nat
  | ClickFinish
  | ClickContinueQuiz
  | ClickFinishNow
  | DialogDismiss
  | TimerFires nat

fun dispatch :: "Question list \<Rightarrow> QuizMode \<Rightarrow> Question \<Rightarrow> Event \<Rightarrow> World \<Rightarrow> World" where
  "dispatch qs m q (ClickOption option now) w =
     (if m = Practice \<and> isAnswered q (ui w) then w
      else commit w True (handleAnswer m q option now w))"
| "dispatch qs m q ClickPrevious w =
     (if currentIndex (ui w) = 0 then w else commit w False (handlePrevious w))"
| "dispatch qs m q ClickSkip w =
     (if currentIndex (ui w) < int (length qs) - 1 then commit w False (handleSkip qs w) else w)"
| "dispatch qs m q ClickFlag w = commit w False (toggleFlag q w)"
| "dispatch qs m q (ClickDot idx) w =
     (if idx < length qs then commit w False (jumpTo idx w) else w)"
| "dispatch qs m q ClickFinish w =
     (if currentIndex (ui w) < int (length qs) - 1 then w
      else commit w False (handleFinishClick qs w))"
| "dispatch qs m q ClickContinueQuiz w =
     (if showConfirmDialog (ui w) then commit w False (setShowConfirmDialog False w) else w)"
| "dispatch qs m q ClickFinishNow w =
     (if showConfirmDialog (ui w) then commit w False (onFinish w) else w)"
| "dispatch qs m q DialogDismiss w =
     (if showConfirmDialog (ui w) then commit w False (setShowConfirmDialog False w) else w)"
| "dispatch qs m q (TimerFires t) w =
     (case find (\<lambda>x. timerId x = t) (pendingTimers w) of
        None \<Rightarrow> w
      | Some tm \<Rightarrow> commit w False (timerCallback qs tm (clearTimeout t w)))"

text \<open>
  Rendering reads \<^verbatim>\<open>currentQuestion.id\<close>, which throws a \<^verbatim>\<open>TypeError\<close> when
  \<^verbatim>\<open>questions[currentIndex]\<close> is \<^verbatim>\<open>undefined\<close>. \<open>mount\<close> is the first render,
  \<open>step\<close> one event with the render that follows it, \<open>run\<close> a sequence of events.
  After the unmount no control is left; a timeout that is still pending then fires
  without changing any state.
\<close>

definition render :: "Question list \<Rightarrow> World \<Rightarrow> JsError + World" where
  "render qs w =
     (if mounted w \<and> currentQuestion qs (ui w) = None then Inl TypeError else Inr w)"

definition mount :: "Question list \<Rightarrow> (string \<times> Answers) list \<Rightarrow> JsError + World" where
  "mount qs store =
     render qs
       \<lparr>ui = \<lparr>currentIndex = 0, answers = [], showConfirmDialog = False,
              flaggedQuestions = [], autoAdvanceTimer = None\<rparr>,
        pendingTimers = [], nextTimer = 1, localStorage = store,
        onFinishCalls = 0, mounted = True\<rparr>"

definition step :: "Question list \<Rightarrow> QuizMode \<Rightarrow> Event \<Rightarrow> World \<Rightarrow> JsError + World" where
  "step qs m e w =
     (if \<not> mounted w
      then (case e of TimerFires t \<Rightarrow> Inr (clearTimeout t w) | _ \<Rightarrow> Inr w)
      else case currentQuestion qs (ui w) of
             None \<Rightarrow> Inl TypeError
           | Some q \<Rightarrow> render qs (dispatch qs m q e w))"

fun run :: "Question list \<Rightarrow> QuizMode \<Rightarrow> Event list \<Rightarrow> World \<Rightarrow> JsError + World" where
  "run qs m [] w = Inr w"
| "run qs m (e # es) w =
     (case step qs m e w of Inl err \<Rightarrow> Inl err | Inr w' \<Rightarrow> run qs m es w')"

definition session :: "Question list \<Rightarrow> QuizMode \<Rightarrow> (string \<times> Answers) list \<Rightarrow> Event list \<Rightarrow> JsError + World" where
  "session qs m store es =
     (case mount qs store of Inl err \<Rightarrow> Inl err | Inr w \<Rightarrow> run qs m es w)"

section \<open>The percentage in the words of the specification\<close>

text \<open>
  The specification writes \<open>percentage = round(correct / total * 100) if total > 0
  else 0\<close>. \<open>spec_percentage\<close> follows these words in exact arithmetic, a quotient
  half-way between two integers going up as \<^verbatim>\<open>Math.round\<close> does. It is compared
  below with the \<open>percentage\<close> that \<open>stats\<close> computes in double precision.
\<close>

definition spec_percentage :: "int \<Rightarrow> int \<Rightarrow> int" where
  "spec_percentage c t =
     (if 0 < t then \<lfloor>(of_int c / of_int t * 100 :: rat) + 1 / 2\<rfloor> else 0)"

section \<open>Example data\<close>

text \<open>
  Five questions and the answers of the scenario "first question right, second wrong,
  third skipped, fourth flagged, fifth right", used to instantiate the theorems below.
\<close>

definition mk_question :: "int \<Rightarrow> OptionKey \<Rightarrow> Question" where
  "mk_question i c =
     \<lparr>qid = i, question = ''Q'',
      options = \<lparr>textA = ''a'', textB = ''b'', textC = ''c'', textD = ''d''\<rparr>,
      correctAnswer = c\<rparr>"

definition five_questions :: "Question list" where
  "five_questions =
     [mk_question 1 OptA, mk_question 2 OptB, mk_question 3 OptC,
      mk_question 4 OptD, mk_question 5 OptA]"

definition mk_answer :: "int \<Rightarrow> OptionKey \<Rightarrow> bool \<Rightarrow> int \<Rightarrow> UserAnswer" where
  "mk_answer i option ok now =
     \<lparr>questionId = i, selectedOption = Some option, isCorrect = ok, timestamp = now\<rparr>"

definition three_answers :: Answers where
  "three_answers =
     [(1, mk_answer 1 OptA True 10), (2, mk_answer 2 OptA False 20),
      (5, mk_answer 5 OptA True 30)]"

definition numbered_questions :: "nat \<Rightarrow> Question list" where
  \<comment> \<open>questions with the ids \<open>1 .. n\<close>\<close>
  "numbered_questions n = map (\<lambda>i. mk_question (int i) OptA) [1..<Suc n]"

definition correct_answers :: "nat \<Rightarrow> Answers" where
  \<comment> \<open>correct answers to the questions with the ids \<open>1 .. k\<close>\<close>
  "correct_answers k = map (\<lambda>i. (int i, mk_answer (int i) OptA True 0)) [1..<Suc k]"

definition stats_with_percentage :: "int \<Rightarrow> Stats" where
  "stats_with_percentage p =
     \<lparr>total = 0, answered = 0, correct = 0, incorrect = 0, unanswered = 0, percentage = p\<rparr>"

section \<open>The start button\<close>

text \<open>
  \<^verbatim>\<open>App\<close> passes \<^verbatim>\<open>questions.length\<close> and \<^verbatim>\<open>startQuiz\<close> to \<^verbatim>\<open>QuizSetup\<close>, so a
  click on the start button runs \<open>handleStart\<close> and, only if that calls \<^verbatim>\<open>onStart\<close>,
  \<open>startQuiz\<close>.
\<close>

definition clickStart ::
  "(nat \<Rightarrow> nat) \<Rightarrow> Question heap \<times> AppState \<Rightarrow> SetupState
     \<Rightarrow> (Question heap \<times> AppState) \<times> SetupState" where
  "clickStart rnd = (\<lambda>(h, app) s.
     case handleStart (length (arr h (questions app))) s of
       (s', None) \<Rightarrow> ((h, app), s')
     | (s', Some config) \<Rightarrow> (startQuiz rnd config (h, app), s'))"

definition setup_state :: "int \<Rightarrow> int \<Rightarrow> SetupState" where
  "setup_state a b =
     \<lparr>uiMode = Exam, uiShuffle = False, uiStartQuestion = a, uiEndQuestion = b, error = None\<rparr>"

definition app_state :: AppState where
  "app_state =
     \<lparr>questions = 0, quizState = Setup, quizConfig = None, selectedQuestions = 1, loading = False\<rparr>"

definition config_of :: "bool \<Rightarrow> int \<Rightarrow> int \<Rightarrow> QuizConfig" where
  "config_of sh a b = \<lparr>mode = Exam, shuffle = sh, startQuestion = a, endQuestion = b\<rparr>"

section \<open>What holds in every state of a session\<close>

text \<open>
  The index is a position of the question list. A
  pending timeout is the one whose handle is stored in \<^verbatim>\<open>autoAdvanceTimer\<close>, it was
  set at the current index, and there is at most one. Handles are positive and below
  the next handle. The answers object has distinct keys, all of them ids of selected
  questions.
\<close>

definition session_inv :: "Question list \<Rightarrow> World \<Rightarrow> bool" where
  "session_inv qs w \<longleftrightarrow>
     0 \<le> currentIndex (ui w) \<and> currentIndex (ui w) < int (length qs)
     \<and> (\<forall>tm \<in> set (pendingTimers w).
           mounted w \<and> autoAdvanceTimer (ui w) = Some (timerId tm)
           \<and> capturedIndex tm = currentIndex (ui w))
     \<and> length (pendingTimers w) \<le> 1
     \<and> 0 < nextTimer w
     \<and> (\<forall>t. autoAdvanceTimer (ui w) = Some t \<longrightarrow> 0 < t \<and> t < nextTimer w)
     \<and> wf_obj (answers (ui w))
     \<and> set (Object_keys (answers (ui w))) \<subseteq> qid ` set qs"

definition selected_in :: "JsError + World \<Rightarrow> int \<Rightarrow> OptionKey option" where
  \<comment> \<open>the option recorded for a question id in the outcome of a session, if any\<close>
  "selected_in r k =
     (case r of
        Inl err \<Rightarrow> None
      | Inr w \<Rightarrow> (case obj_get (answers (ui w)) k of
                   None \<Rightarrow> None
                 | Some a \<Rightarrow> selectedOption a))"

section \<open>Example sessions\<close>

text \<open>
  The states of a practice session over \<open>five_questions\<close> that the instances below
  pass through: nothing answered yet, the first question answered, and the scenario
  of \<open>three_answers\<close> played to the last question.
\<close>

definition fresh_world :: "int \<Rightarrow> World" where
  "fresh_world i =
     \<lparr>ui = \<lparr>currentIndex = i, answers = [], showConfirmDialog = False,
            flaggedQuestions = [], autoAdvanceTimer = None\<rparr>,
      pendingTimers = [], nextTimer = 1, localStorage = [],
      onFinishCalls = 0, mounted = True\<rparr>"

definition first_answer_world :: "OptionKey \<Rightarrow> int \<Rightarrow> nat \<Rightarrow> int \<Rightarrow> Timer list \<Rightarrow> World" where
  "first_answer_world option now t i pend =
     \<lparr>ui = \<lparr>currentIndex = i,
            answers = [(1, mk_answer 1 option (option = OptA) now)],
            showConfirmDialog = False, flaggedQuestions = [], autoAdvanceTimer = Some t\<rparr>,
      pendingTimers = pend, nextTimer = Suc t,
      localStorage = [(''quizAnswers'', [(1, mk_answer 1 option (option = OptA) now)])],
      onFinishCalls = 0, mounted = True\<rparr>"

definition scenario_events :: "Event list" where
  "scenario_events =
     [ClickOption OptA 10, TimerFires 1, ClickOption OptA 20, TimerFires 2,
      ClickSkip, ClickFlag, ClickSkip, ClickOption OptA 30, TimerFires 3]"

definition scenario_world :: "bool \<Rightarrow> nat \<Rightarrow> bool \<Rightarrow> World" where
  "scenario_world dialog calls mnt =
     \<lparr>ui = \<lparr>currentIndex = 4, answers = three_answers, showConfirmDialog = dialog,
            flaggedQuestions = [4], autoAdvanceTimer = Some 3\<rparr>,
      pendingTimers = [], nextTimer = 4,
      localStorage = [(''quizAnswers'', three_answers)],
      onFinishCalls = calls, mounted = mnt\<rparr>"

definition full_events :: "Event list" where
  "full_events =
     [ClickOption OptA 10, TimerFires 1, ClickOption OptA 20, TimerFires 2,
      ClickOption OptA 30, TimerFires 3, ClickOption OptA 40, TimerFires 4,
      ClickOption OptA 50, TimerFires 5]"

definition full_answers :: Answers where
  "full_answers =
     [(1, mk_answer 1 OptA True 10), (2, mk_answer 2 OptA False 20),
      (3, mk_answer 3 OptA False 30), (4, mk_answer 4 OptA False 40),
      (5, mk_answer 5 OptA True 50)]"

definition full_world :: World where
  "full_world =
     \<lparr>ui = \<lparr>currentIndex = 4, answers = full_answers, showConfirmDialog = False,
            flaggedQuestions = [], autoAdvanceTimer = Some 5\<rparr>,
      pendingTimers = [], nextTimer = 6,
      localStorage = [(''quizAnswers'', full_answers)],
      onFinishCalls = 0, mounted = True\<rparr>"

definition outcome_index :: "JsError + World \<Rightarrow> int option" where
  "outcome_index r = (case r of Inl err \<Rightarrow> None | Inr w \<Rightarrow> Some (currentIndex (ui w)))"

section \<open>Objects: basic facts\<close>

lemma keys_card: "wf_obj obj \<Longrightarrow> length (Object_keys obj) = card (fst ` set obj)"
  unfolding wf_obj_def Object_keys_def
  by (metis distinct_card length_map set_map)

lemma values_filter_card:
  "wf_obj obj \<Longrightarrow>
   length (filter P (Object_values obj)) = card {k. \<exists>v. obj_get obj k = Some v \<and> P v}"
proof (induction obj)
  case Nil
  then show ?case by (simp add: Object_values_def obj_get_def)
next
  case (Cons kv obj)
  obtain k v where kv: "kv = (k, v)" by (cases kv)
  from Cons.prems have wf: "wf_obj obj" and fresh: "k \<notin> fst ` set obj"
    by (auto simp: wf_obj_def kv)
  have none: "obj_get obj k = None"
    using fresh by (simp add: obj_get_def map_of_eq_None_iff)
  let ?S = "{k'. \<exists>v'. obj_get obj k' = Some v' \<and> P v'}"
  have fin: "finite ?S"
  proof (rule finite_subset)
    show "?S \<subseteq> fst ` set obj"
      by (auto simp: obj_get_def dest!: map_of_SomeD intro: rev_image_eqI)
  qed simp
  have notin: "k \<notin> ?S" using none by simp
  have split: "{k'. \<exists>v'. obj_get (kv # obj) k' = Some v' \<and> P v'} = (if P v then insert k ?S else ?S)"
    using none by (auto simp: kv obj_get_def)
  show ?case
    using Cons.IH [OF wf] fin notin
    by (simp add: split) (simp add: Object_values_def kv)
qed

section \<open>Double-precision arithmetic: accuracy\<close>

text \<open>
  Rounding to a double changes a positive number by at most the fraction \<open>2 ^ -53\<close>
  of it. For a count below \<open>2 ^ 32\<close> the double value of
  \<^verbatim>\<open>(correct / total) * 100\<close> therefore differs from the exact quotient by less than
  \<open>1 / (2 * total)\<close>, and \<^verbatim>\<open>Math.round\<close> of it is an integer nearest to the exact
  quotient: the exact quotient rounded half up, unless the exact quotient lies half-way
  between two integers, where the double may fall on either side.
\<close>

lemma pow2_powi: "pow2 e = 2 powi e"
  by (simp add: pow2_def power_int_def inverse_eq_divide power_one_over)

lemma pow2_pos: "0 < pow2 e"
  by (simp add: pow2_powi)

lemma pow2_add: "pow2 (i + j) = pow2 i * pow2 j"
  by (simp add: pow2_powi power_int_add)

lemma pow2_nat: "pow2 (int n) = 2 ^ n"
  by (simp add: pow2_powi)

lemma pow2_less: "i < j \<Longrightarrow> pow2 i < pow2 j"
  by (simp add: pow2_powi power_int_strict_increasing)

lemma round_half_even_near: "\<bar>of_int (round_half_even y) - y\<bar> \<le> 1 / 2"
proof -
  have "of_int \<lfloor>y\<rfloor> \<le> y" "y < of_int \<lfloor>y\<rfloor> + 1" by linarith+
  then show ?thesis
    by (auto simp: round_half_even_def Let_def abs_le_iff)
qed

lemma double_exponent_bounds:
  assumes "0 < x"
  shows "pow2 (double_exponent x + 52) \<le> x \<and> x < pow2 (double_exponent x + 53)"
proof -
  obtain a b where q: "quotient_of x = (a, b)" by (cases "quotient_of x")
  have b: "0 < b" using q quotient_of_denom_pos by blast
  have x: "x = of_int a / of_int b" using q by (simp add: quotient_of_div)
  have a: "0 < a" using assms b x by (simp add: zero_less_divide_iff)
  let ?la = "bitlen a" and ?lb = "bitlen b"
  have la: "1 \<le> ?la" and lb: "1 \<le> ?lb"
    using a b by (simp_all add: bitlen_alt_def)
  have ba: "(2::int) ^ nat (?la - 1) \<le> a" "a < 2 ^ nat ?la"
    using bitlen_bounds [OF a] by simp_all
  have bb: "(2::int) ^ nat (?lb - 1) \<le> b" "b < 2 ^ nat ?lb"
    using bitlen_bounds [OF b] by simp_all
  have ra: "pow2 (?la - 1) \<le> of_int a" "of_int a < pow2 ?la"
  proof -
    have "pow2 (?la - 1) = of_int (2 ^ nat (?la - 1))"
      using la by (simp add: pow2_def)
    also have "\<dots> \<le> of_int a" using ba(1) by (simp only: of_int_le_iff)
    finally show "pow2 (?la - 1) \<le> of_int a" .
    have "(of_int a :: rat) < of_int (2 ^ nat ?la)" using ba(2) by (simp only: of_int_less_iff)
    also have "\<dots> = pow2 ?la" using la by (simp add: pow2_def)
    finally show "of_int a < pow2 ?la" .
  qed
  have rb: "pow2 (?lb - 1) \<le> of_int b" "of_int b < pow2 ?lb"
  proof -
    have "pow2 (?lb - 1) = of_int (2 ^ nat (?lb - 1))"
      using lb by (simp add: pow2_def)
    also have "\<dots> \<le> of_int b" using bb(1) by (simp only: of_int_le_iff)
    finally show "pow2 (?lb - 1) \<le> of_int b" .
    have "(of_int b :: rat) < of_int (2 ^ nat ?lb)" using bb(2) by (simp only: of_int_less_iff)
    also have "\<dots> = pow2 ?lb" using lb by (simp add: pow2_def)
    finally show "of_int b < pow2 ?lb" .
  qed
  let ?e = "?la - ?lb - 53"
  have bpos: "(0::rat) < of_int b" using b by simp
  have lo: "pow2 (?e + 52) < x"
  proof -
    have "pow2 (?e + 52) * pow2 ?lb = pow2 (?la - 1)"
      by (simp add: pow2_add [symmetric])
    then have "pow2 (?e + 52) * of_int b < pow2 (?la - 1)"
      using rb(2) pow2_pos [of "?e + 52"]
      by (metis mult_less_cancel_left_pos)
    then have "pow2 (?e + 52) * of_int b < of_int a" using ra(1) by linarith
    then show ?thesis using bpos by (simp add: x pos_less_divide_eq)
  qed
  have hi: "x < pow2 (?e + 54)"
  proof -
    have "pow2 (?e + 54) * pow2 (?lb - 1) = pow2 ?la"
      by (simp add: pow2_add [symmetric])
    then have "pow2 ?la \<le> pow2 (?e + 54) * of_int b"
      using rb(1) pow2_pos [of "?e + 54"]
      by (metis mult_le_cancel_left_pos)
    then have "of_int a < pow2 (?e + 54) * of_int b" using ra(2) by linarith
    then show ?thesis using bpos by (simp add: x pos_divide_less_eq)
  qed
  have de: "double_exponent x = (if x < pow2 (?e + 53) then ?e else ?e + 1)"
    by (simp add: double_exponent_def q Let_def)
  show ?thesis
  proof (cases "x < pow2 (?e + 53)")
    case True
    then show ?thesis using lo de by simp
  next
    case False
    then have "double_exponent x = ?e + 1" using de by simp
    then show ?thesis using False hi by (simp add: add.commute add.left_commute)
  qed
qed

lemma double_of_error:
  assumes "0 < x"
  shows "\<bar>double_of x - x\<bar> \<le> x / 2 ^ 53" and "0 < double_of x"
proof -
  let ?e = "double_exponent x"
  let ?m = "round_half_even (x / pow2 ?e)"
  note bd = double_exponent_bounds [OF assms]
  have d: "double_of x = of_int ?m * pow2 ?e"
    using assms by (simp add: double_of_def Let_def)
  have p: "0 < pow2 ?e" by (rule pow2_pos)
  have near: "\<bar>of_int ?m - x / pow2 ?e\<bar> \<le> 1 / 2" by (rule round_half_even_near)
  have "\<bar>double_of x - x\<bar> = \<bar>of_int ?m - x / pow2 ?e\<bar> * pow2 ?e"
  proof -
    have "double_of x - x = (of_int ?m - x / pow2 ?e) * pow2 ?e"
      using p by (simp add: d field_simps)
    then show ?thesis using p by (simp add: abs_mult)
  qed
  also have "\<dots> \<le> 1 / 2 * pow2 ?e"
    using near p by (simp add: mult_right_mono)
  also have "\<dots> \<le> x / 2 ^ 53"
  proof -
    have "pow2 ?e * 2 ^ 52 = pow2 (?e + 52)"
      using pow2_add [of ?e 52] pow2_nat [of 52] by simp
    then have "pow2 ?e * 2 ^ 52 \<le> x" using bd by simp
    then show ?thesis by (simp add: field_simps)
  qed
  finally show "\<bar>double_of x - x\<bar> \<le> x / 2 ^ 53" .
  then have "x - double_of x \<le> x / 2 ^ 53" by linarith
  moreover have "x / 2 ^ 53 < x" using assms by simp
  ultimately show "0 < double_of x" by linarith
qed


lemma double_percent_error:
  assumes "0 < c" "c < 2 ^ 32" "0 < t"
  shows "\<bar>double_mul (double_div (of_int c) (of_int t)) 100 - 100 * of_int c / of_int t\<bar>
           < 1 / (2 * of_int t)"
proof -
  define q :: rat where "q = of_int c / of_int t"
  define x1 where "x1 = double_of q"
  define x2 where "x2 = double_of (x1 * 100)"
  have tpos: "(0::rat) < of_int t" using assms(3) by simp
  have qpos: "0 < q" using assms(1) tpos by (simp add: q_def)
  have e1: "\<bar>x1 - q\<bar> \<le> q / 2 ^ 53" and x1pos: "0 < x1"
    using double_of_error [OF qpos] by (simp_all add: x1_def)
  have e2: "\<bar>x2 - x1 * 100\<bar> \<le> x1 * 100 / 2 ^ 53"
    using double_of_error(1) [of "x1 * 100"] x1pos by (simp add: x2_def)
  have e1n: "\<bar>x1 - q\<bar> \<le> q / 9007199254740992" using e1 by simp
  have e2n: "\<bar>x2 - x1 * 100\<bar> \<le> x1 * 100 / 9007199254740992" using e2 by simp
  have "\<bar>x2 - 100 * q\<bar> \<le> 300 * q / 9007199254740992"
    using e1n e2n qpos x1pos by linarith
  then have "\<bar>x2 - 100 * q\<bar> \<le> 300 * q / 2 ^ 53" by simp
  moreover have "300 * q / 2 ^ 53 < 1 / (2 * of_int t)"
  proof -
    have "(of_int c :: rat) < 2 ^ 32" using assms(2) by (metis of_int_less_iff of_int_numeral of_int_power)
    then have "600 * (of_int c :: rat) / 2 ^ 53 < 1" by simp
    then have "600 * (of_int c :: rat) / 2 ^ 53 * (1 / (2 * of_int t)) < 1 * (1 / (2 * of_int t))"
      using tpos by (intro mult_strict_right_mono) simp_all
    moreover have "300 * q / 2 ^ 53 = 600 * (of_int c :: rat) / 2 ^ 53 * (1 / (2 * of_int t))"
      by (simp add: q_def)
    ultimately show ?thesis by simp
  qed
  ultimately have "\<bar>x2 - 100 * q\<bar> < 1 / (2 * of_int t)" by linarith
  then show ?thesis
    by (simp add: x2_def x1_def q_def double_mul_def double_div_def)
qed

lemma floor_near_fraction:
  fixes n d :: int and z :: rat
  assumes "0 < d" "\<bar>z - of_int n / of_int d\<bar> < 1 / of_int d"
  shows "n mod d \<noteq> 0 \<Longrightarrow> \<lfloor>z\<rfloor> = n div d"
    and "n mod d = 0 \<Longrightarrow> \<lfloor>z\<rfloor> = n div d \<or> \<lfloor>z\<rfloor> = n div d - 1"
proof -
  have dpos: "(0::rat) < of_int d" using assms(1) by simp
  have n: "(of_int n :: rat) / of_int d = of_int (n div d) + of_int (n mod d) / of_int d"
  proof -
    have "(of_int n :: rat) = of_int (n div d) * of_int d + of_int (n mod d)"
      by (metis div_mult_mod_eq of_int_add of_int_mult)
    then show ?thesis using dpos by (simp add: field_simps)
  qed
  have "of_int n / of_int d - 1 / of_int d < z" "z < of_int n / of_int d + 1 / of_int d"
    using assms(2) by linarith+
  then have lo: "of_int (n div d) + (of_int (n mod d) - 1) / of_int d < z"
    and hi: "z < of_int (n div d) + (of_int (n mod d) + 1) / of_int d"
    unfolding n diff_divide_distrib add_divide_distrib by linarith+
  show "\<lfloor>z\<rfloor> = n div d" if "n mod d \<noteq> 0"
  proof (rule floor_unique)
    have "1 \<le> n mod d" using that assms(1) by (smt (verit) pos_mod_sign)
    then have "0 \<le> (of_int (n mod d) - 1 :: rat) / of_int d"
      using dpos by simp
    then show "of_int (n div d) \<le> z" using lo by linarith
    have "n mod d + 1 \<le> d" using assms(1) by (smt (verit) pos_mod_bound)
    then have "(of_int (n mod d) + 1 :: rat) \<le> of_int d"
      by (metis of_int_1 of_int_add of_int_le_iff)
    then have "(of_int (n mod d) + 1 :: rat) / of_int d \<le> 1"
      using dpos by (simp add: divide_le_eq_1)
    then show "z < of_int (n div d) + 1" using hi by linarith
  qed
  show "\<lfloor>z\<rfloor> = n div d \<or> \<lfloor>z\<rfloor> = n div d - 1" if "n mod d = 0"
  proof -
    have d1: "(1::rat) / of_int d \<le> 1" using assms(1) dpos by (simp add: divide_le_eq_1)
    have "of_int (n div d) - 1 < z" "z < of_int (n div d) + 1"
      using lo hi that d1 by (simp_all add: field_simps)
    then have "n div d - 1 \<le> \<lfloor>z\<rfloor>" "\<lfloor>z\<rfloor> \<le> n div d"
      by (simp_all add: le_floor_iff floor_le_iff) 
    then show ?thesis by linarith
  qed
qed


lemma Math_round_percent:
  fixes c t :: int
  assumes "0 \<le> c" "c < 2 ^ 32" "0 < t"
  defines "p \<equiv> Math_round (double_mul (double_div (of_int c) (of_int t)) 100)"
  shows "\<bar>of_int p - 100 * of_int c / of_int t\<bar> \<le> (1 / 2 :: rat)"
    and "(200 * c + t) mod (2 * t) \<noteq> 0 \<Longrightarrow> p = (200 * c + t) div (2 * t)"
proof -
  let ?x2 = "double_mul (double_div (of_int c) (of_int t)) 100"
  let ?x = "100 * of_int c / of_int t :: rat"
  let ?n = "200 * c + t" and ?d = "2 * t"
  have tpos: "(0::rat) < of_int t" using assms(3) by simp
  have err: "\<bar>?x2 - ?x\<bar> < 1 / (2 * of_int t)"
  proof (cases "c = 0")
    case True
    then show ?thesis using tpos by (simp add: double_div_def double_mul_def double_of_def)
  next
    case False
    then show ?thesis using double_percent_error [of c t] assms by simp
  qed
  have frac: "(of_int ?n :: rat) / of_int ?d = ?x + 1 / 2"
    using tpos by (simp add: field_simps)
  have d: "0 < ?d" using assms(3) by simp
  have near: "\<bar>(?x2 + 1 / 2) - of_int ?n / of_int ?d\<bar> < 1 / of_int ?d"
    using err unfolding frac by simp
  have p: "p = \<lfloor>?x2 + 1 / 2\<rfloor>" by (simp add: p_def Math_round_def)
  show r: "p = ?n div ?d" if "?n mod ?d \<noteq> 0"
    using floor_near_fraction(1) [OF d near that] p by simp
  show "\<bar>of_int p - ?x\<bar> \<le> (1 / 2 :: rat)"
  proof (cases "?n mod ?d = 0")
    case False
    then have "p = \<lfloor>?x + 1 / 2\<rfloor>"
      using r frac by (metis floor_divide_of_int_eq)
    moreover have "of_int \<lfloor>?x + 1 / 2\<rfloor> \<le> ?x + 1 / 2"
      "?x + 1 / 2 < of_int \<lfloor>?x + 1 / 2\<rfloor> + 1"
      by linarith+
    ultimately show ?thesis by linarith
  next
    case True
    then have "(of_int (?n div ?d) :: rat) = of_int ?n / of_int ?d"
      by (intro of_int_div) (simp add: dvd_eq_mod_eq_0)
    then have v: "(of_int (?n div ?d) :: rat) = ?x + 1 / 2" using frac by simp
    have "p = ?n div ?d \<or> p = ?n div ?d - 1"
      using floor_near_fraction(2) [OF d near True] p by simp
    then show ?thesis using v by (auto simp: abs_le_iff)
  qed
qed

section \<open>ResultsScreen: the statistics\<close>

lemma spec_percentage_div:
  assumes "0 < t"
  shows "spec_percentage c t = (200 * c + t) div (2 * t)"
proof -
  have tpos: "(0::rat) < of_int t" using assms by simp
  have "(of_int c / of_int t * 100 :: rat) + 1 / 2 = of_int (200 * c + t) / of_int (2 * t)"
    using tpos by (simp add: field_simps)
  then show ?thesis
    using assms by (simp only: spec_percentage_def if_True floor_divide_of_int_eq)
qed

lemma percentage_2_of_5: "Math_round (double_mul (double_div 2 5) 100) = 40"
  by code_simp

text \<open>
  The product is rounded twice (once after the division, once after the
  multiplication), so the percentage is not always the exact quotient rounded half up:
  23 of 40 is exactly 57.5, the double product is 57.49999999999999, and the screen
  shows 57. No other rule for the half-way case matches either: 1 of 8 is exactly
  12.5, the double product is 12.5 too, and the screen shows 13.
\<close>

lemma percentage_23_of_40:
  "Math_round (double_mul (double_div 23 40) 100) = 57 \<and> Math_round (23 / 40 * 100) = 58"
  by code_simp

lemma percentage_1_of_8: "Math_round (double_mul (double_div 1 8) 100) = 13"
  by code_simp

text \<open>
  Claim C1, as the code has it. For every list of selected questions and every
  answers object, the statistics are: \<open>total\<close> the number of selected questions,
  \<open>answered\<close> the number of distinct keys of the answers object, \<open>correct\<close> the number
  of its records with \<open>isCorrect\<close> true, \<open>incorrect = answered - correct\<close>,
  \<open>unanswered = total - answered\<close>, and \<open>percentage\<close> the value of
  \<^verbatim>\<open>Math.round((correct / total) * 100)\<close> in double precision when \<open>total > 0\<close> and 0
  otherwise. The denominator is \<open>total\<close>, not \<open>answered\<close>. The percentage is an integer
  within 1/2 of \<open>100 * correct / total\<close>, and it is that quotient rounded half up
  whenever the quotient is not half-way between two integers; at a half-way quotient
  the double arithmetic decides: 23 correct of 40 give 57, 1 correct of 8 gives 13.
  With 5 questions, 3 answered and 2 correct the result is \<open>{total: 5, answered: 3,
  correct: 2, incorrect: 1, unanswered: 2, percentage: 40}\<close>.
\<close>

theorem stats_formula:
  assumes "wf_obj ans"
  shows "total (stats qs ans) = int (length qs)
    \<and> answered (stats qs ans) = int (card (fst ` set ans))
    \<and> correct (stats qs ans) = int (card {k. \<exists>a. obj_get ans k = Some a \<and> isCorrect a})
    \<and> incorrect (stats qs ans) = answered (stats qs ans) - correct (stats qs ans)
    \<and> unanswered (stats qs ans) = total (stats qs ans) - answered (stats qs ans)
    \<and> percentage (stats qs ans) =
        (if 0 < total (stats qs ans)
         then Math_round (double_mul
                (double_div (of_int (correct (stats qs ans))) (of_int (total (stats qs ans)))) 100)
         else 0)
    \<and> (0 < length qs \<and> length ans < 2 ^ 32
        \<longrightarrow> \<bar>of_int (percentage (stats qs ans))
              - 100 * of_int (correct (stats qs ans)) / of_int (total (stats qs ans))\<bar>
              \<le> (1 / 2 :: rat)
            \<and> ((200 * correct (stats qs ans) + total (stats qs ans))
                  mod (2 * total (stats qs ans)) \<noteq> 0
                \<longrightarrow> percentage (stats qs ans)
                      = (200 * correct (stats qs ans) + total (stats qs ans))
                          div (2 * total (stats qs ans))
                    \<and> percentage (stats qs ans)
                      = spec_percentage (correct (stats qs ans)) (total (stats qs ans))))
    \<and> (total (stats qs ans) = 40 \<and> correct (stats qs ans) = 23
        \<longrightarrow> percentage (stats qs ans) = 57)
    \<and> (total (stats qs ans) = 8 \<and> correct (stats qs ans) = 1
        \<longrightarrow> percentage (stats qs ans) = 13)
    \<and> (total (stats qs ans) = 5 \<and> answered (stats qs ans) = 3 \<and> correct (stats qs ans) = 2
        \<longrightarrow> stats qs ans =
            \<lparr>total = 5, answered = 3, correct = 2, incorrect = 1, unanswered = 2, percentage = 40\<rparr>)"
proof -
  have a: "answered (stats qs ans) = int (card (fst ` set ans))"
    using keys_card [OF assms] by (simp add: stats_def Let_def)
  have c: "correct (stats qs ans) = int (card {k. \<exists>a. obj_get ans k = Some a \<and> isCorrect a})"
    using values_filter_card [OF assms, of isCorrect] by (simp add: stats_def Let_def)
  have rest: "total (stats qs ans) = int (length qs)"
    "incorrect (stats qs ans) = answered (stats qs ans) - correct (stats qs ans)"
    "unanswered (stats qs ans) = total (stats qs ans) - answered (stats qs ans)"
    "percentage (stats qs ans) =
        (if 0 < total (stats qs ans)
         then Math_round (double_mul
                (double_div (of_int (correct (stats qs ans))) (of_int (total (stats qs ans)))) 100)
         else 0)"
    by (simp_all add: stats_def Let_def)
  have ex: "stats qs ans =
            \<lparr>total = 5, answered = 3, correct = 2, incorrect = 1, unanswered = 2, percentage = 40\<rparr>"
    if "total (stats qs ans) = 5" "answered (stats qs ans) = 3" "correct (stats qs ans) = 2"
  proof -
    have "percentage (stats qs ans) = 40"
      using rest(4) that percentage_2_of_5 by simp
    moreover have "incorrect (stats qs ans) = 1" "unanswered (stats qs ans) = 2"
      using rest(2,3) that by simp_all
    ultimately show ?thesis using that by (cases "stats qs ans") simp
  qed
  have near: "\<bar>of_int (percentage (stats qs ans))
              - 100 * of_int (correct (stats qs ans)) / of_int (total (stats qs ans))\<bar>
              \<le> (1 / 2 :: rat)
            \<and> ((200 * correct (stats qs ans) + total (stats qs ans))
                  mod (2 * total (stats qs ans)) \<noteq> 0
                \<longrightarrow> percentage (stats qs ans)
                      = (200 * correct (stats qs ans) + total (stats qs ans))
                          div (2 * total (stats qs ans))
                    \<and> percentage (stats qs ans)
                      = spec_percentage (correct (stats qs ans)) (total (stats qs ans)))"
    if "0 < length qs \<and> length ans < 2 ^ 32"
  proof -
    have t: "0 < total (stats qs ans)" using that rest(1) by simp
    have "length (filter isCorrect (Object_values ans)) \<le> length ans"
      by (metis Object_values_def length_filter_le length_map)
    then have "correct (stats qs ans) \<le> int (length ans)"
      by (simp add: stats_def Let_def)
    moreover have "int (length ans) < 2 ^ 32"
      using that by (metis of_nat_less_iff of_nat_numeral of_nat_power)
    ultimately have c1: "correct (stats qs ans) < 2 ^ 32" by linarith
    have c0: "0 \<le> correct (stats qs ans)" by (simp add: stats_def Let_def)
    have p: "percentage (stats qs ans) = Math_round (double_mul
                (double_div (of_int (correct (stats qs ans))) (of_int (total (stats qs ans)))) 100)"
      using rest(4) t by simp
    have sp: "spec_percentage (correct (stats qs ans)) (total (stats qs ans))
        = (200 * correct (stats qs ans) + total (stats qs ans)) div (2 * total (stats qs ans))"
      by (rule spec_percentage_div [OF t])
    show ?thesis
      unfolding p sp using Math_round_percent [OF c0 c1 t] by blast
  qed
  have tie1: "percentage (stats qs ans) = 57"
    if "total (stats qs ans) = 40 \<and> correct (stats qs ans) = 23"
    using rest(4) that percentage_23_of_40 by simp
  have tie2: "percentage (stats qs ans) = 13"
    if "total (stats qs ans) = 8 \<and> correct (stats qs ans) = 1"
    using rest(4) that percentage_1_of_8 by simp
  show ?thesis using a c rest near tie1 tie2 ex by blast
qed

text \<open>
  The claim as stated, with \<open>round\<close> applied to the exact quotient, fails: for 40
  selected questions of which 23 are answered, all correctly, the quotient is 57.5,
  which rounds to 58, and \<open>stats\<close> gives 57.
\<close>

theorem stats_percentage_counterexample:
  "total (stats (numbered_questions 40) (correct_answers 23)) = 40
   \<and> correct (stats (numbered_questions 40) (correct_answers 23)) = 23
   \<and> percentage (stats (numbered_questions 40) (correct_answers 23)) = 57
   \<and> spec_percentage 23 40 = 58
   \<and> percentage (stats (numbered_questions 40) (correct_answers 23))
       \<noteq> spec_percentage (correct (stats (numbered_questions 40) (correct_answers 23)))
                          (total (stats (numbered_questions 40) (correct_answers 23)))"
  by code_simp

theorem stats_formula_witness:
  "wf_obj three_answers
   \<and> stats five_questions three_answers =
       \<lparr>total = 5, answered = 3, correct = 2, incorrect = 1, unanswered = 2, percentage = 40\<rparr>
   \<and> 0 < length five_questions \<and> length three_answers < 2 ^ 32
   \<and> percentage (stats five_questions three_answers) = (200 * 2 + 5) div (2 * 5)
   \<and> percentage (stats five_questions three_answers) = spec_percentage 2 5
   \<and> wf_obj (correct_answers 23)
   \<and> percentage (stats (numbered_questions 40) (correct_answers 23)) = 57
   \<and> wf_obj (correct_answers 1)
   \<and> percentage (stats (numbered_questions 8) (correct_answers 1)) = 13"
proof -
  let ?s = "stats five_questions three_answers"
  have wf: "wf_obj three_answers"
    by (simp add: wf_obj_def three_answers_def)
  have vals: "total ?s = 5" "answered ?s = 3" "correct ?s = 2"
    by (simp_all add: stats_def Let_def five_questions_def three_answers_def mk_answer_def
        Object_keys_def Object_values_def)
  have len: "0 < length five_questions" "length three_answers < 2 ^ 32"
    by (simp_all add: five_questions_def three_answers_def)
  have off_tie: "(200 * correct ?s + total ?s) mod (2 * total ?s) \<noteq> 0"
    by (simp add: vals)
  note T = stats_formula [OF wf, of five_questions]
  have e: "?s = \<lparr>total = 5, answered = 3, correct = 2, incorrect = 1, unanswered = 2, percentage = 40\<rparr>"
    using T vals by blast
  have "percentage ?s = (200 * correct ?s + total ?s) div (2 * total ?s)"
    "percentage ?s = spec_percentage (correct ?s) (total ?s)"
    using T len off_tie by blast+
  then have d: "percentage ?s = (200 * 2 + 5) div (2 * 5)" "percentage ?s = spec_percentage 2 5"
    by (simp_all only: vals)
  have wf23: "wf_obj (correct_answers 23)" by code_simp
  have v23: "total (stats (numbered_questions 40) (correct_answers 23)) = 40"
    "correct (stats (numbered_questions 40) (correct_answers 23)) = 23"
    by code_simp+
  have t23: "percentage (stats (numbered_questions 40) (correct_answers 23)) = 57"
    using stats_formula [OF wf23, of "numbered_questions 40"] v23 by blast
  have wf1: "wf_obj (correct_answers 1)" by code_simp
  have v1: "total (stats (numbered_questions 8) (correct_answers 1)) = 8"
    "correct (stats (numbered_questions 8) (correct_answers 1)) = 1"
    by code_simp+
  have t1: "percentage (stats (numbered_questions 8) (correct_answers 1)) = 13"
    using stats_formula [OF wf1, of "numbered_questions 8"] v1 by blast
  show ?thesis using wf e len d wf23 t23 wf1 t1 by blast
qed

section \<open>ResultsScreen: the performance band\<close>

text \<open>
  Claim C9. The performance band is one of five tiers with inclusive lower bounds,
  tried from the top, the first match winning: a percentage of at least 90 gives
  "Excellent!", otherwise at least 75 "Great Job!", otherwise at least 60
  "Good Effort!", otherwise at least 40 "Keep Practicing!", and anything lower
  "Need More Practice".
\<close>

theorem performance_band_tiers:
  "(90 \<le> percentage st \<longrightarrow> ptext (getPerformanceMessage st) = ''Excellent!'')
   \<and> (75 \<le> percentage st \<and> percentage st < 90 \<longrightarrow>
        ptext (getPerformanceMessage st) = ''Great Job!'')
   \<and> (60 \<le> percentage st \<and> percentage st < 75 \<longrightarrow>
        ptext (getPerformanceMessage st) = ''Good Effort!'')
   \<and> (40 \<le> percentage st \<and> percentage st < 60 \<longrightarrow>
        ptext (getPerformanceMessage st) = ''Keep Practicing!'')
   \<and> (percentage st < 40 \<longrightarrow> ptext (getPerformanceMessage st) = ''Need More Practice'')"
  by (simp add: getPerformanceMessage_def)

theorem performance_band_tiers_witness:
  "ptext (getPerformanceMessage (stats_with_percentage 90)) = ''Excellent!''
   \<and> ptext (getPerformanceMessage (stats_with_percentage 89)) = ''Great Job!''
   \<and> ptext (getPerformanceMessage (stats_with_percentage 75)) = ''Great Job!''
   \<and> ptext (getPerformanceMessage (stats_with_percentage 60)) = ''Good Effort!''
   \<and> ptext (getPerformanceMessage (stats_with_percentage 40)) = ''Keep Practicing!''
   \<and> ptext (getPerformanceMessage (stats_with_percentage 39)) = ''Need More Practice''"
  using performance_band_tiers [of "stats_with_percentage 90"]
    performance_band_tiers [of "stats_with_percentage 89"]
    performance_band_tiers [of "stats_with_percentage 75"]
    performance_band_tiers [of "stats_with_percentage 60"]
    performance_band_tiers [of "stats_with_percentage 40"]
    performance_band_tiers [of "stats_with_percentage 39"]
  by (simp add: stats_with_percentage_def)

section \<open>ResultsScreen: the review filter\<close>

text \<open>
  Claim C10. With the incorrect-only filter on, the review list consists of exactly
  the selected questions whose id has an answer record with \<open>isCorrect\<close> false, in
  selection order; a question without an answer record is not in it. With the filter
  off the review list is the list of selected questions.
\<close>

theorem review_filter:
  "reviewQuestions qs ans True =
     filter (\<lambda>q. \<exists>a. obj_get ans (qid q) = Some a \<and> \<not> isCorrect a) qs
   \<and> (\<forall>q \<in> set qs. obj_get ans (qid q) = None \<longrightarrow> q \<notin> set (reviewQuestions qs ans True))
   \<and> reviewQuestions qs ans False = qs"
proof -
  have eq: "(case obj_get ans (qid q) of None \<Rightarrow> False | Some a \<Rightarrow> \<not> isCorrect a)
        = (\<exists>a. obj_get ans (qid q) = Some a \<and> \<not> isCorrect a)" for q
    by (cases "obj_get ans (qid q)") simp_all
  have "reviewQuestions qs ans True =
     filter (\<lambda>q. \<exists>a. obj_get ans (qid q) = Some a \<and> \<not> isCorrect a) qs"
    unfolding reviewQuestions_def by (simp only: eq if_True)
  then show ?thesis by (simp add: reviewQuestions_def)
qed

theorem review_filter_witness:
  "reviewQuestions five_questions three_answers True = [mk_question 2 OptB]
   \<and> mk_question 3 OptC \<in> set five_questions
   \<and> obj_get three_answers (qid (mk_question 3 OptC)) = None
   \<and> mk_question 3 OptC \<notin> set (reviewQuestions five_questions three_answers True)
   \<and> reviewQuestions five_questions three_answers False = five_questions"
proof -
  have m: "mk_question 3 OptC \<in> set five_questions"
    by (simp add: five_questions_def)
  have n: "obj_get three_answers (qid (mk_question 3 OptC)) = None"
    by (simp add: obj_get_def three_answers_def mk_question_def)
  have f: "filter (\<lambda>q. \<exists>a. obj_get three_answers (qid q) = Some a \<and> \<not> isCorrect a) five_questions
           = [mk_question 2 OptB]"
    by (simp add: obj_get_def three_answers_def five_questions_def mk_question_def mk_answer_def)
  from review_filter [of five_questions three_answers] m n f show ?thesis by auto
qed

section \<open>QuizSetup: validation\<close>

text \<open>
  Claim C4. For every number of questions and every chosen range, if the start is
  below 1, or the end is above the number of questions, or the start is above the end,
  or fewer than 5 questions are selected, then \<open>handleStart\<close> stores an error message
  that names a condition the range really violates, does not call \<^verbatim>\<open>onStart\<close>, and
  the application stays where it is; otherwise it clears the error and calls
  \<^verbatim>\<open>onStart\<close> with exactly the chosen mode, shuffle flag, start and end, which
  starts the quiz.
\<close>

theorem handleStart_validation:
  "(uiStartQuestion s < 1 \<or> int n < uiEndQuestion s \<or> uiEndQuestion s < uiStartQuestion s
      \<or> uiEndQuestion s - uiStartQuestion s + 1 < 5
    \<longrightarrow> snd (handleStart n s) = None
        \<and> (\<exists>msg. fst (handleStart n s) = s\<lparr>error := Some msg\<rparr>
              \<and> (msg = ''Start question must be between 1 and '' @ show_nat n
                    \<and> (uiStartQuestion s < 1 \<or> int n < uiStartQuestion s)
                  \<or> msg = ''End question must be between 1 and '' @ show_nat n
                    \<and> (uiEndQuestion s < 1 \<or> int n < uiEndQuestion s)
                  \<or> msg = ''Start question must be less than or equal to end question''
                    \<and> uiEndQuestion s < uiStartQuestion s
                  \<or> msg = ''Please select at least 5 questions''
                    \<and> uiEndQuestion s - uiStartQuestion s + 1 < 5))
        \<and> (n = length (arr h (questions app))
             \<longrightarrow> fst (clickStart rnd (h, app) s) = (h, app)))
   \<and> (uiStartQuestion s < 1 \<or> int n < uiStartQuestion s
    \<longrightarrow> error (fst (handleStart n s)) =
          Some (''Start question must be between 1 and '' @ show_nat n))
   \<and> (1 \<le> uiStartQuestion s \<and> uiStartQuestion s \<le> int n
      \<and> (uiEndQuestion s < 1 \<or> int n < uiEndQuestion s)
    \<longrightarrow> error (fst (handleStart n s)) =
          Some (''End question must be between 1 and '' @ show_nat n))
   \<and> (uiStartQuestion s \<le> int n \<and> 1 \<le> uiEndQuestion s
      \<and> uiEndQuestion s < uiStartQuestion s
    \<longrightarrow> error (fst (handleStart n s)) =
          Some ''Start question must be less than or equal to end question'')
   \<and> (1 \<le> uiStartQuestion s \<and> uiEndQuestion s \<le> int n
      \<and> uiStartQuestion s \<le> uiEndQuestion s \<and> uiEndQuestion s - uiStartQuestion s + 1 < 5
    \<longrightarrow> error (fst (handleStart n s)) = Some ''Please select at least 5 questions'')
   \<and> (1 \<le> uiStartQuestion s \<and> uiEndQuestion s \<le> int n \<and> uiStartQuestion s \<le> uiEndQuestion s
      \<and> 5 \<le> uiEndQuestion s - uiStartQuestion s + 1
    \<longrightarrow> handleStart n s =
          (s\<lparr>error := None\<rparr>,
           Some \<lparr>mode = uiMode s, shuffle = uiShuffle s,
                 startQuestion = uiStartQuestion s, endQuestion = uiEndQuestion s\<rparr>)
        \<and> (n = length (arr h (questions app))
             \<longrightarrow> clickStart rnd (h, app) s =
                   (startQuiz rnd \<lparr>mode = uiMode s, shuffle = uiShuffle s,
                                   startQuestion = uiStartQuestion s,
                                   endQuestion = uiEndQuestion s\<rparr> (h, app),
                    s\<lparr>error := None\<rparr>)
                 \<and> quizState (snd (fst (clickStart rnd (h, app) s))) = Quiz))"
proof (intro conjI impI)
  assume bad: "uiStartQuestion s < 1 \<or> int n < uiEndQuestion s
      \<or> uiEndQuestion s < uiStartQuestion s \<or> uiEndQuestion s - uiStartQuestion s + 1 < 5"
  then show none: "snd (handleStart n s) = None"
    by (auto simp: handleStart_def)
  show "\<exists>msg. fst (handleStart n s) = s\<lparr>error := Some msg\<rparr>
              \<and> (msg = ''Start question must be between 1 and '' @ show_nat n
                    \<and> (uiStartQuestion s < 1 \<or> int n < uiStartQuestion s)
                  \<or> msg = ''End question must be between 1 and '' @ show_nat n
                    \<and> (uiEndQuestion s < 1 \<or> int n < uiEndQuestion s)
                  \<or> msg = ''Start question must be less than or equal to end question''
                    \<and> uiEndQuestion s < uiStartQuestion s
                  \<or> msg = ''Please select at least 5 questions''
                    \<and> uiEndQuestion s - uiStartQuestion s + 1 < 5)"
  proof -
    consider (c1) "uiStartQuestion s < 1 \<or> int n < uiStartQuestion s"
      | (c2) "\<not> (uiStartQuestion s < 1 \<or> int n < uiStartQuestion s)"
             "uiEndQuestion s < 1 \<or> int n < uiEndQuestion s"
      | (c3) "\<not> (uiStartQuestion s < 1 \<or> int n < uiStartQuestion s)"
             "\<not> (uiEndQuestion s < 1 \<or> int n < uiEndQuestion s)"
             "uiEndQuestion s < uiStartQuestion s"
      | (c4) "\<not> (uiStartQuestion s < 1 \<or> int n < uiStartQuestion s)"
             "\<not> (uiEndQuestion s < 1 \<or> int n < uiEndQuestion s)"
             "\<not> uiEndQuestion s < uiStartQuestion s"
             "uiEndQuestion s - uiStartQuestion s + 1 < 5"
      using bad by linarith
    then show ?thesis
    proof cases
      case c1
      then show ?thesis unfolding handleStart_def by (simp only: if_True fst_conv) blast
    next
      case c2
      then show ?thesis unfolding handleStart_def by (simp only: if_True if_False fst_conv) blast
    next
      case c3
      then show ?thesis unfolding handleStart_def by (simp only: if_True if_False fst_conv) blast
    next
      case c4
      then show ?thesis unfolding handleStart_def by (simp only: if_True if_False fst_conv) blast
    qed
  qed
  show "fst (clickStart rnd (h, app) s) = (h, app)" if "n = length (arr h (questions app))"
  proof -
    obtain s' where "handleStart n s = (s', None)"
      using none by (cases "handleStart n s") auto
    then show ?thesis using that by (simp add: clickStart_def)
  qed
next
  show "error (fst (handleStart n s)) =
          Some (''Start question must be between 1 and '' @ show_nat n)"
    if "uiStartQuestion s < 1 \<or> int n < uiStartQuestion s"
    using that by (simp add: handleStart_def)
next
  show "error (fst (handleStart n s)) =
          Some (''End question must be between 1 and '' @ show_nat n)"
    if "1 \<le> uiStartQuestion s \<and> uiStartQuestion s \<le> int n
      \<and> (uiEndQuestion s < 1 \<or> int n < uiEndQuestion s)"
    using that by (auto simp: handleStart_def)
next
  show "error (fst (handleStart n s)) =
          Some ''Start question must be less than or equal to end question''"
    if "uiStartQuestion s \<le> int n \<and> 1 \<le> uiEndQuestion s
      \<and> uiEndQuestion s < uiStartQuestion s"
    using that by (auto simp: handleStart_def)
next
  show "error (fst (handleStart n s)) = Some ''Please select at least 5 questions''"
    if "1 \<le> uiStartQuestion s \<and> uiEndQuestion s \<le> int n
      \<and> uiStartQuestion s \<le> uiEndQuestion s \<and> uiEndQuestion s - uiStartQuestion s + 1 < 5"
    using that by (auto simp: handleStart_def)
next
  assume ok: "1 \<le> uiStartQuestion s \<and> uiEndQuestion s \<le> int n
      \<and> uiStartQuestion s \<le> uiEndQuestion s \<and> 5 \<le> uiEndQuestion s - uiStartQuestion s + 1"
  then show start: "handleStart n s =
          (s\<lparr>error := None\<rparr>,
           Some \<lparr>mode = uiMode s, shuffle = uiShuffle s,
                 startQuestion = uiStartQuestion s, endQuestion = uiEndQuestion s\<rparr>)"
    by (simp add: handleStart_def)
  show "clickStart rnd (h, app) s =
          (startQuiz rnd \<lparr>mode = uiMode s, shuffle = uiShuffle s,
                          startQuestion = uiStartQuestion s,
                          endQuestion = uiEndQuestion s\<rparr> (h, app),
           s\<lparr>error := None\<rparr>)" if "n = length (arr h (questions app))"
    using start that by (simp add: clickStart_def)
  then show "quizState (snd (fst (clickStart rnd (h, app) s))) = Quiz"
    if "n = length (arr h (questions app))"
    using that by (simp add: startQuiz_def Let_def split: prod.splits)
qed

theorem handleStart_validation_witness:
  "snd (handleStart 10 (setup_state 6 4)) = None
   \<and> error (fst (handleStart 10 (setup_state 6 4))) =
       Some ''Start question must be less than or equal to end question''
   \<and> error (fst (handleStart 10 (setup_state 0 7))) =
       Some ''Start question must be between 1 and 10''
   \<and> error (fst (handleStart 10 (setup_state 3 12))) =
       Some ''End question must be between 1 and 10''
   \<and> error (fst (handleStart 10 (setup_state 3 6))) = Some ''Please select at least 5 questions''
   \<and> (5::nat) = length (arr [five_questions, []] (questions app_state))
   \<and> fst (clickStart (\<lambda>i. 0) ([five_questions, []], app_state) (setup_state 2 4))
       = ([five_questions, []], app_state)
   \<and> handleStart 10 (setup_state 2 8) = ((setup_state 2 8)\<lparr>error := None\<rparr>, Some (config_of False 2 8))
   \<and> quizState (snd (fst (clickStart (\<lambda>i. 0) ([five_questions, []], app_state) (setup_state 1 5))))
       = Quiz"
proof -
  have len: "(5::nat) = length (arr [five_questions, []] (questions app_state))"
    by (simp add: arr_def app_state_def five_questions_def)
  have sn: "show_nat 10 = ''10''" by code_simp
  note A = handleStart_validation [of "setup_state 6 4" 10]
    and B = handleStart_validation [of "setup_state 0 7" 10]
    and C = handleStart_validation [of "setup_state 3 6" 10]
    and D = handleStart_validation [of "setup_state 2 4" 5 "[five_questions, []]" app_state "\<lambda>i. 0"]
    and E = handleStart_validation [of "setup_state 2 8" 10]
    and F = handleStart_validation [of "setup_state 1 5" 5 "[five_questions, []]" app_state "\<lambda>i. 0"]
    and G = handleStart_validation [of "setup_state 3 12" 10]
  have a: "snd (handleStart 10 (setup_state 6 4)) = None"
    "error (fst (handleStart 10 (setup_state 6 4))) =
       Some ''Start question must be less than or equal to end question''"
    using A by (simp_all add: setup_state_def)
  have b: "error (fst (handleStart 10 (setup_state 0 7))) =
       Some ''Start question must be between 1 and 10''"
    using B sn by (simp add: setup_state_def)
  have g: "error (fst (handleStart 10 (setup_state 3 12))) =
       Some ''End question must be between 1 and 10''"
    using G sn by (simp add: setup_state_def)
  have c: "error (fst (handleStart 10 (setup_state 3 6))) = Some ''Please select at least 5 questions''"
    using C by (simp add: setup_state_def)
  have d: "fst (clickStart (\<lambda>i. 0) ([five_questions, []], app_state) (setup_state 2 4))
       = ([five_questions, []], app_state)"
    using D len by (simp add: setup_state_def)
  have e: "handleStart 10 (setup_state 2 8) =
      ((setup_state 2 8)\<lparr>error := None\<rparr>, Some (config_of False 2 8))"
    using E by (simp add: setup_state_def config_of_def)
  have "1 \<le> uiStartQuestion (setup_state 1 5) \<and> uiEndQuestion (setup_state 1 5) \<le> int 5
      \<and> uiStartQuestion (setup_state 1 5) \<le> uiEndQuestion (setup_state 1 5)
      \<and> 5 \<le> uiEndQuestion (setup_state 1 5) - uiStartQuestion (setup_state 1 5) + 1"
    by (simp add: setup_state_def)
  with F len have f:
    "quizState (snd (fst (clickStart (\<lambda>i. 0) ([five_questions, []], app_state) (setup_state 1 5))))
       = Quiz"
    by blast
  from a b g c len d e f show ?thesis by blast
qed

section \<open>Heap arrays: basic facts\<close>

lemma alloc_facts:
  assumes "alloc h xs = (h', r)"
  shows "r = length h" and "length h' = Suc (length h)" and "arr h' r = xs"
    and "\<forall>r' < length h. arr h' r' = arr h r'"
  using assms by (auto simp: alloc_def arr_def nth_append)

lemma swap_facts:
  assumes "r < length h" "i < length (arr h r)" "j < length (arr h r)"
  shows "length (swap h r i j) = length h"
    and "mset (arr (swap h r i j) r) = mset (arr h r)"
    and "length (arr (swap h r i j) r) = length (arr h r)"
    and "r' \<noteq> r \<Longrightarrow> arr (swap h r i j) r' = arr h r'"
  using assms mset_swap [of j "arr h r" i]
  by (simp_all add: swap_def arr_def Let_def)

lemma shuffle_loop_facts:
  assumes "r < length h" "i < length (arr h r)" "\<forall>k \<le> i. rnd k \<le> k"
  shows "length (shuffle_loop rnd i h r) = length h
    \<and> mset (arr (shuffle_loop rnd i h r) r) = mset (arr h r)
    \<and> (\<forall>r'. r' \<noteq> r \<longrightarrow> arr (shuffle_loop rnd i h r) r' = arr h r')"
  using assms
proof (induction i arbitrary: h)
  case 0
  then show ?case by simp
next
  case (Suc i)
  let ?h = "swap h r (Suc i) (rnd (Suc i))"
  have j: "rnd (Suc i) < length (arr h r)"
    using Suc.prems by (meson le_less_trans order_refl)
  note sw = swap_facts [OF Suc.prems(1) Suc.prems(2) j]
  have "length (shuffle_loop rnd i ?h r) = length ?h
    \<and> mset (arr (shuffle_loop rnd i ?h r) r) = mset (arr ?h r)
    \<and> (\<forall>r'. r' \<noteq> r \<longrightarrow> arr (shuffle_loop rnd i ?h r) r' = arr ?h r')"
  proof (rule Suc.IH)
    show "r < length ?h" using sw(1) Suc.prems(1) by simp
    show "i < length (arr ?h r)" using sw(3) Suc.prems(2) by simp
    show "\<forall>k \<le> i. rnd k \<le> k" using Suc.prems(3) by simp
  qed
  then show ?case using sw by simp
qed

lemma shuffleArray_facts:
  assumes "array < length h" and "\<forall>i < length (arr h array). rnd i \<le> i"
  shows "mset (arr (fst (shuffleArray rnd h array)) (snd (shuffleArray rnd h array)))
           = mset (arr h array)
    \<and> snd (shuffleArray rnd h array) = length h
    \<and> (\<forall>r < length h. arr (fst (shuffleArray rnd h array)) r = arr h r)
    \<and> arr (fst (shuffleArray rnd h array)) array = arr h array"
proof -
  obtain h1 s where al: "alloc h (arr h array) = (h1, s)"
    by (cases "alloc h (arr h array)")
  note af = alloc_facts [OF al]
  let ?n = "length (arr h1 s) - 1"
  have res: "shuffleArray rnd h array = (shuffle_loop rnd ?n h1 s, s)"
    by (simp add: shuffleArray_def al)
  have both: "(\<forall>r < length h. arr (shuffle_loop rnd ?n h1 s) r = arr h r)
      \<and> mset (arr (shuffle_loop rnd ?n h1 s) s) = mset (arr h array)"
  proof (cases "arr h array = []")
    case True
    then have "?n = 0" using af(3) by simp
    then show ?thesis using af by simp
  next
    case False
    have "length (shuffle_loop rnd ?n h1 s) = length h1
      \<and> mset (arr (shuffle_loop rnd ?n h1 s) s) = mset (arr h1 s)
      \<and> (\<forall>r'. r' \<noteq> s \<longrightarrow> arr (shuffle_loop rnd ?n h1 s) r' = arr h1 r')"
    proof (rule shuffle_loop_facts)
      show "s < length h1" using af by simp
      show "?n < length (arr h1 s)" using af False by simp
      show "\<forall>k \<le> ?n. rnd k \<le> k"
      proof (intro allI impI)
        fix k assume "k \<le> ?n"
        then have "k < length (arr h array)"
          using af(3) False by (cases "arr h array") auto
        then show "rnd k \<le> k" using assms(2) by blast
      qed
    qed
    then show ?thesis using af by auto
  qed
  then have old: "\<forall>r < length h. arr (shuffle_loop rnd ?n h1 s) r = arr h r"
    and new: "mset (arr (shuffle_loop rnd ?n h1 s) s) = mset (arr h array)"
    by blast+
  show ?thesis
    using old new af assms(1) by (simp add: res)
qed

section \<open>App: the shuffle\<close>

text \<open>
  Claim C2. For every input array and every choice of the random indices drawn
  during the shuffle (the index drawn at loop variable \<open>i\<close> lies in \<open>[0, i]\<close>), the
  array returned by \<open>shuffleArray\<close> is a permutation of the input: the multiset of its
  elements, and so the multiset of question ids, is that of the input. The result is a
  fresh array; the input array and every other array of the heap are unchanged.
\<close>

theorem shuffleArray_permutation:
  assumes "array < length h" and "\<forall>i < length (arr h array). rnd i \<le> i"
  shows "mset (arr (fst (shuffleArray rnd h array)) (snd (shuffleArray rnd h array)))
           = mset (arr h array)
    \<and> mset (map qid (arr (fst (shuffleArray rnd h array)) (snd (shuffleArray rnd h array))))
           = mset (map qid (arr h array))
    \<and> snd (shuffleArray rnd h array) = length h
    \<and> (\<forall>r < length h. arr (fst (shuffleArray rnd h array)) r = arr h r)
    \<and> arr (fst (shuffleArray rnd h array)) array = arr h array"
proof -
  note F = shuffleArray_facts [OF assms]
  then have "mset (map qid (arr (fst (shuffleArray rnd h array)) (snd (shuffleArray rnd h array))))
           = mset (map qid (arr h array))"
    by (metis mset_map)
  with F show ?thesis by blast
qed

theorem shuffleArray_permutation_witness:
  "(1::nat) < length [[], five_questions]
   \<and> arr (fst (shuffleArray (\<lambda>i. i div 2) [[], five_questions] 1))
         (snd (shuffleArray (\<lambda>i. i div 2) [[], five_questions] 1))
       = [mk_question 5 OptA, mk_question 1 OptA, mk_question 4 OptD,
          mk_question 2 OptB, mk_question 3 OptC]
   \<and> mset (map qid (arr (fst (shuffleArray (\<lambda>i. i div 2) [[], five_questions] 1))
                         (snd (shuffleArray (\<lambda>i. i div 2) [[], five_questions] 1))))
       = mset (map qid (arr [[], five_questions] 1))
   \<and> arr (fst (shuffleArray (\<lambda>i. i div 2) [[], five_questions] 1)) 1 = five_questions"
proof -
  have a: "(1::nat) < length [[], five_questions]" by simp
  have b: "\<forall>i < length (arr [[], five_questions] 1). (\<lambda>i. i div 2) i \<le> i" by simp
  have c: "arr (fst (shuffleArray (\<lambda>i. i div 2) [[], five_questions] 1))
         (snd (shuffleArray (\<lambda>i. i div 2) [[], five_questions] 1))
       = [mk_question 5 OptA, mk_question 1 OptA, mk_question 4 OptD,
          mk_question 2 OptB, mk_question 3 OptC]"
    by code_simp
  have d: "arr [[], five_questions] 1 = five_questions" by (simp add: arr_def)
  note T = shuffleArray_permutation [OF a b]
  have e: "mset (map qid (arr (fst (shuffleArray (\<lambda>i. i div 2) [[], five_questions] 1))
                         (snd (shuffleArray (\<lambda>i. i div 2) [[], five_questions] 1))))
       = mset (map qid (arr [[], five_questions] 1))"
    using T by blast
  have f: "arr (fst (shuffleArray (\<lambda>i. i div 2) [[], five_questions] 1)) 1 = five_questions"
    using T unfolding d by blast
  from a c e f show ?thesis by blast
qed

section \<open>App: starting the quiz\<close>

lemma slice_range:
  assumes "1 \<le> a" "a \<le> b" "b \<le> int (length xs)"
  shows "slice xs (max 0 (a - 1)) (min (int (length xs)) b)
           = map (\<lambda>k. xs ! k) [nat (a - 1) ..< nat b]"
proof -
  have s: "slice xs (max 0 (a - 1)) (min (int (length xs)) b)
             = take (nat (b - (a - 1))) (drop (nat (a - 1)) xs)"
    using assms by (simp add: slice_def Let_def max_def min_def)
  have "take (nat (b - (a - 1))) (drop (nat (a - 1)) xs) = map (\<lambda>k. xs ! k) [nat (a - 1) ..< nat b]"
  proof (rule nth_equalityI)
    show "length (take (nat (b - (a - 1))) (drop (nat (a - 1)) xs))
            = length (map (\<lambda>k. xs ! k) [nat (a - 1) ..< nat b])"
      using assms by (simp add: min_def) linarith
  next
    fix i assume "i < length (take (nat (b - (a - 1))) (drop (nat (a - 1)) xs))"
    then have i: "i < nat (b - (a - 1))" by simp
    then have "nat (a - 1) + i < nat b" using assms by linarith
    then show "take (nat (b - (a - 1))) (drop (nat (a - 1)) xs) ! i
                 = map (\<lambda>k. xs ! k) [nat (a - 1) ..< nat b] ! i"
      using i assms by simp
  qed
  with s show ?thesis by simp
qed

text \<open>
  Claim C3. For every question list and every valid configuration
  (\<open>1 \<le> startQuestion \<le> endQuestion \<le>\<close> number of questions), the selected array that
  \<open>startQuiz\<close> stores has \<open>endQuestion - startQuestion + 1\<close> elements; the array it
  selects before the optional shuffle consists of the questions at the 1-based
  positions \<open>startQuestion .. endQuestion\<close> in their original order and is the stored
  selection when shuffling is off (when it is on, the stored selection is a
  permutation of it); the full question array, like every array that existed before,
  is unchanged.
\<close>

theorem startQuiz_selection:
  assumes "questions app < length h"
    and "1 \<le> startQuestion config" and "startQuestion config \<le> endQuestion config"
    and "endQuestion config \<le> int (length (arr h (questions app)))"
    and "shuffle config \<longrightarrow> (\<forall>i. rnd i \<le> i)"
  shows "length (arr (fst (startQuiz rnd config (h, app)))
                     (selectedQuestions (snd (startQuiz rnd config (h, app)))))
           = nat (endQuestion config - startQuestion config + 1)
    \<and> arr (fst (startQuiz rnd config (h, app))) (length h)
           = map (\<lambda>k. arr h (questions app) ! k)
               [nat (startQuestion config - 1) ..< nat (endQuestion config)]
    \<and> (\<not> shuffle config \<longrightarrow>
          selectedQuestions (snd (startQuiz rnd config (h, app))) = length h)
    \<and> mset (arr (fst (startQuiz rnd config (h, app)))
                 (selectedQuestions (snd (startQuiz rnd config (h, app)))))
           = mset (arr (fst (startQuiz rnd config (h, app))) (length h))
    \<and> questions (snd (startQuiz rnd config (h, app))) = questions app
    \<and> (\<forall>r < length h. arr (fst (startQuiz rnd config (h, app))) r = arr h r)
    \<and> quizConfig (snd (startQuiz rnd config (h, app))) = Some config
    \<and> quizState (snd (startQuiz rnd config (h, app))) = Quiz"
proof -
  let ?qs = "arr h (questions app)"
  let ?sel = "map (\<lambda>k. ?qs ! k) [nat (startQuestion config - 1) ..< nat (endQuestion config)]"
  let ?app = "\<lambda>r. app\<lparr>quizConfig := Some config, selectedQuestions := r, quizState := Quiz\<rparr>"
  have sl: "slice ?qs (max 0 (startQuestion config - 1)) (min (int (length ?qs)) (endQuestion config))
              = ?sel"
    using assms(2-4) by (rule slice_range)
  obtain h1 f where al: "alloc h ?sel = (h1, f)" by (cases "alloc h ?sel")
  note af = alloc_facts [OF al]
  have len: "length ?sel = nat (endQuestion config - startQuestion config + 1)"
    using assms(2-4) by simp
  show ?thesis
  proof (cases "shuffle config")
    case False
    have res: "startQuiz rnd config (h, app) = (h1, ?app f)"
      using False by (simp add: startQuiz_def Let_def sl al)
    show ?thesis using af len False by (simp add: res)
  next
    case True
    obtain h2 f' where sh: "shuffleArray rnd h1 f = (h2, f')"
      by (cases "shuffleArray rnd h1 f")
    have res: "startQuiz rnd config (h, app) = (h2, ?app f')"
      using True by (simp add: startQuiz_def Let_def sl al sh)
    have "f < length h1" using af by simp
    moreover have "\<forall>i < length (arr h1 f). rnd i \<le> i" using assms(5) True by simp
    ultimately have perm:
      "mset (arr (fst (shuffleArray rnd h1 f)) (snd (shuffleArray rnd h1 f))) = mset (arr h1 f)
       \<and> snd (shuffleArray rnd h1 f) = length h1
       \<and> (\<forall>r < length h1. arr (fst (shuffleArray rnd h1 f)) r = arr h1 r)
       \<and> arr (fst (shuffleArray rnd h1 f)) f = arr h1 f"
      by (rule shuffleArray_facts)
    note perm' = perm [unfolded sh fst_conv snd_conv]
    have p1: "mset (arr h2 f') = mset (arr h1 f)"
      and keep: "\<forall>r < length h1. arr h2 r = arr h1 r"
      using perm' by blast+
    have m: "mset (arr h2 f') = mset ?sel"
      using p1 by (simp only: af(3))
    have "length (arr h2 f') = length ?sel"
      using m by (metis size_mset)
    moreover have "arr h2 (length h) = ?sel" using keep af by simp
    moreover have "\<forall>r < length h. arr h2 r = arr h r" using keep af by simp
    ultimately show ?thesis using m len True by (simp add: res)
  qed
qed

theorem startQuiz_selection_witness:
  "questions app_state < length [five_questions, []]
   \<and> (1::int) \<le> startQuestion (config_of True 2 4)
   \<and> startQuestion (config_of True 2 4) \<le> endQuestion (config_of True 2 4)
   \<and> endQuestion (config_of True 2 4) \<le> int (length (arr [five_questions, []] (questions app_state)))
   \<and> shuffle (config_of True 2 4)
   \<and> length (arr (fst (startQuiz (\<lambda>i::nat. 0::nat) (config_of True 2 4) ([five_questions, []], app_state)))
        (selectedQuestions (snd (startQuiz (\<lambda>i::nat. 0::nat) (config_of True 2 4) ([five_questions, []], app_state)))))
       = 3
   \<and> arr (fst (startQuiz (\<lambda>i::nat. 0::nat) (config_of True 2 4) ([five_questions, []], app_state)))
         (length [five_questions, []])
       = [mk_question 2 OptB, mk_question 3 OptC, mk_question 4 OptD]
   \<and> arr (fst (startQuiz (\<lambda>i::nat. 0::nat) (config_of True 2 4) ([five_questions, []], app_state))) 0
       = five_questions"
proof -
  have a: "questions app_state < length [five_questions, []]"
    by (simp add: app_state_def)
  have b: "(1::int) \<le> startQuestion (config_of True 2 4)"
    "startQuestion (config_of True 2 4) \<le> endQuestion (config_of True 2 4)"
    "endQuestion (config_of True 2 4) \<le> int (length (arr [five_questions, []] (questions app_state)))"
    by (simp_all add: config_of_def app_state_def arr_def five_questions_def)
  have c: "shuffle (config_of True 2 4) \<longrightarrow> (\<forall>i. (\<lambda>i::nat. 0::nat) i \<le> i)" by simp
  note T = startQuiz_selection [OF a b c]
  have d: "nat (endQuestion (config_of True 2 4) - startQuestion (config_of True 2 4) + 1) = 3"
    by (simp add: config_of_def)
  have e: "map (\<lambda>k. arr [five_questions, []] (questions app_state) ! k)
               [nat (startQuestion (config_of True 2 4) - 1) ..< nat (endQuestion (config_of True 2 4))]
           = [mk_question 2 OptB, mk_question 3 OptC, mk_question 4 OptD]"
    by code_simp
  have f: "arr [five_questions, []] 0 = five_questions" by (simp add: arr_def)
  have "length (arr (fst (startQuiz (\<lambda>i::nat. 0::nat) (config_of True 2 4) ([five_questions, []], app_state)))
        (selectedQuestions (snd (startQuiz (\<lambda>i::nat. 0::nat) (config_of True 2 4) ([five_questions, []], app_state)))))
       = 3"
    using T unfolding d by blast
  moreover have "arr (fst (startQuiz (\<lambda>i::nat. 0::nat) (config_of True 2 4) ([five_questions, []], app_state)))
         (length [five_questions, []])
       = [mk_question 2 OptB, mk_question 3 OptC, mk_question 4 OptD]"
    using T unfolding e by blast
  moreover have "arr (fst (startQuiz (\<lambda>i::nat. 0::nat) (config_of True 2 4) ([five_questions, []], app_state))) 0
       = five_questions"
    using T f by simp
  moreover have "shuffle (config_of True 2 4)" by (simp add: config_of_def)
  ultimately show ?thesis using a b by blast
qed

section \<open>Objects: updates\<close>

lemma obj_get_put: "obj_get (obj_put k v obj) k' = (if k' = k then Some v else obj_get obj k')"
  by (induction obj) (auto simp: obj_get_def)

lemma keys_put: "set (Object_keys (obj_put k v obj)) = insert k (set (Object_keys obj))"
proof (induction obj)
  case Nil
  then show ?case by (simp add: Object_keys_def)
next
  case (Cons kv obj)
  obtain k' v' where kv: "kv = (k', v')" by (cases kv)
  show ?case using Cons by (simp add: Object_keys_def kv insert_commute)
qed

lemma wf_obj_put: "wf_obj obj \<Longrightarrow> wf_obj (obj_put k v obj)"
proof (induction obj)
  case Nil
  then show ?case by (simp add: wf_obj_def)
next
  case (Cons kv obj)
  obtain k' v' where kv: "kv = (k', v')" by (cases kv)
  have "set (map fst (obj_put k v obj)) = insert k (set (map fst obj))"
    using keys_put [of k v obj] by (simp add: Object_keys_def)
  then show ?case using Cons by (auto simp: wf_obj_def kv)
qed

section \<open>QuizScreen: what the primitives change\<close>

lemma clearTimeout_parts [simp]:
  "ui (clearTimeout t w) = ui w"
  "pendingTimers (clearTimeout t w) = filter (\<lambda>x. timerId x \<noteq> t) (pendingTimers w)"
  "nextTimer (clearTimeout t w) = nextTimer w"
  "localStorage (clearTimeout t w) = localStorage w"
  "onFinishCalls (clearTimeout t w) = onFinishCalls w"
  "mounted (clearTimeout t w) = mounted w"
  by (simp_all add: clearTimeout_def)

lemma clear_if_set_parts [simp]:
  "ui (clear_if_set x w) = ui w"
  "pendingTimers (clear_if_set x w) =
     (case x of None \<Rightarrow> pendingTimers w
      | Some t \<Rightarrow> if t \<noteq> 0 then filter (\<lambda>x. timerId x \<noteq> t) (pendingTimers w)
                  else pendingTimers w)"
  "nextTimer (clear_if_set x w) = nextTimer w"
  "localStorage (clear_if_set x w) = localStorage w"
  "onFinishCalls (clear_if_set x w) = onFinishCalls w"
  "mounted (clear_if_set x w) = mounted w"
  by (simp_all add: clear_if_set_def split: option.splits)

lemma setItem_parts [simp]:
  "ui (setItem k v w) = ui w"
  "pendingTimers (setItem k v w) = pendingTimers w"
  "nextTimer (setItem k v w) = nextTimer w"
  "localStorage (setItem k v w) = obj_put k v (localStorage w)"
  "onFinishCalls (setItem k v w) = onFinishCalls w"
  "mounted (setItem k v w) = mounted w"
  by (simp_all add: setItem_def)

lemma save_if_nonempty_parts [simp]:
  "ui (save_if_nonempty a w) = ui w"
  "pendingTimers (save_if_nonempty a w) = pendingTimers w"
  "nextTimer (save_if_nonempty a w) = nextTimer w"
  "onFinishCalls (save_if_nonempty a w) = onFinishCalls w"
  "mounted (save_if_nonempty a w) = mounted w"
  by (simp_all add: save_if_nonempty_def)

lemma setCurrentIndex_parts [simp]:
  "ui (setCurrentIndex i w) = (ui w)\<lparr>currentIndex := i\<rparr>"
  "pendingTimers (setCurrentIndex i w) = pendingTimers w"
  "nextTimer (setCurrentIndex i w) = nextTimer w"
  "localStorage (setCurrentIndex i w) = localStorage w"
  "onFinishCalls (setCurrentIndex i w) = onFinishCalls w"
  "mounted (setCurrentIndex i w) = mounted w"
  by (simp_all add: setCurrentIndex_def)

lemma setShowConfirmDialog_parts [simp]:
  "ui (setShowConfirmDialog b w) = (ui w)\<lparr>showConfirmDialog := b\<rparr>"
  "pendingTimers (setShowConfirmDialog b w) = pendingTimers w"
  "nextTimer (setShowConfirmDialog b w) = nextTimer w"
  "localStorage (setShowConfirmDialog b w) = localStorage w"
  "onFinishCalls (setShowConfirmDialog b w) = onFinishCalls w"
  "mounted (setShowConfirmDialog b w) = mounted w"
  by (simp_all add: setShowConfirmDialog_def)

lemma onFinish_parts [simp]:
  "ui (onFinish w) = ui w"
  "pendingTimers (onFinish w) = pendingTimers w"
  "nextTimer (onFinish w) = nextTimer w"
  "localStorage (onFinish w) = localStorage w"
  "onFinishCalls (onFinish w) = Suc (onFinishCalls w)"
  "mounted (onFinish w) = mounted w"
  by (simp_all add: onFinish_def)

lemma toggleFlag_parts [simp]:
  "currentIndex (ui (toggleFlag q w)) = currentIndex (ui w)"
  "answers (ui (toggleFlag q w)) = answers (ui w)"
  "showConfirmDialog (ui (toggleFlag q w)) = showConfirmDialog (ui w)"
  "autoAdvanceTimer (ui (toggleFlag q w)) = autoAdvanceTimer (ui w)"
  "pendingTimers (toggleFlag q w) = pendingTimers w"
  "nextTimer (toggleFlag q w) = nextTimer w"
  "localStorage (toggleFlag q w) = localStorage w"
  "onFinishCalls (toggleFlag q w) = onFinishCalls w"
  "mounted (toggleFlag q w) = mounted w"
  by (simp_all add: toggleFlag_def)

lemma handleAnswer_parts [simp]:
  "currentIndex (ui (handleAnswer m q opt now w)) = currentIndex (ui w)"
  "answers (ui (handleAnswer m q opt now w)) =
     obj_put (qid q)
       \<lparr>questionId = qid q, selectedOption = Some opt,
        isCorrect = (opt = correctAnswer q), timestamp = now\<rparr> (answers (ui w))"
  "showConfirmDialog (ui (handleAnswer m q opt now w)) = showConfirmDialog (ui w)"
  "autoAdvanceTimer (ui (handleAnswer m q opt now w)) = Some (nextTimer w)"
  "pendingTimers (handleAnswer m q opt now w) =
     pendingTimers w @ [\<lparr>timerId = nextTimer w, delay = (if m = Practice then 1500 else 500),
                         capturedIndex = currentIndex (ui w)\<rparr>]"
  "nextTimer (handleAnswer m q opt now w) = Suc (nextTimer w)"
  "localStorage (handleAnswer m q opt now w) = localStorage w"
  "onFinishCalls (handleAnswer m q opt now w) = onFinishCalls w"
  "mounted (handleAnswer m q opt now w) = mounted w"
  by (simp_all add: handleAnswer_def setTimeout_def Let_def)

lemma unmount_parts [simp]:
  "ui (unmount w) = ui w"
  "pendingTimers (unmount w) = pendingTimers (clear_if_set (autoAdvanceTimer (ui w)) w)"
  "nextTimer (unmount w) = nextTimer w"
  "onFinishCalls (unmount w) = onFinishCalls w"
  "mounted (unmount w) = False"
  by (cases "autoAdvanceTimer (ui w)"; simp add: unmount_def)+

lemma commit_parts:
  "ui (commit old b new) = ui new"
  "nextTimer (commit old b new) = nextTimer new"
  "onFinishCalls (commit old b new) = onFinishCalls new"
  "mounted (commit old b new) = (mounted new \<and> onFinishCalls new = onFinishCalls old)"
  "pendingTimers (commit old b new) =
     pendingTimers
       ((if onFinishCalls new \<noteq> onFinishCalls old
         then clear_if_set (autoAdvanceTimer (ui new)) else (\<lambda>w. w))
        ((if autoAdvanceTimer (ui new) \<noteq> autoAdvanceTimer (ui old)
             \<or> currentIndex (ui new) \<noteq> currentIndex (ui old)
          then clear_if_set (autoAdvanceTimer (ui old)) else (\<lambda>w. w)) new))"
  by (cases "autoAdvanceTimer (ui new)"; cases "autoAdvanceTimer (ui old)";
      simp add: commit_def Let_def)+


section \<open>QuizScreen: the invariant\<close>

lemma inv_pending:
  assumes "session_inv qs w"
  shows "pendingTimers w = []
    \<or> (\<exists>tm. pendingTimers w = [tm] \<and> mounted w \<and> autoAdvanceTimer (ui w) = Some (timerId tm)
            \<and> capturedIndex tm = currentIndex (ui w) \<and> 0 < timerId tm \<and> timerId tm < nextTimer w)"
proof (cases "pendingTimers w")
  case Nil
  then show ?thesis by simp
next
  case (Cons tm rest)
  have "rest = []" using assms Cons by (simp add: session_inv_def)
  then show ?thesis using assms Cons by (auto simp: session_inv_def)
qed

lemma inv_index:
  "session_inv qs w \<Longrightarrow> 0 \<le> currentIndex (ui w) \<and> currentIndex (ui w) < int (length qs)"
  by (simp add: session_inv_def)

lemma inv_timer:
  "session_inv qs w \<Longrightarrow> autoAdvanceTimer (ui w) = Some t \<Longrightarrow> 0 < t \<and> t < nextTimer w"
  by (simp add: session_inv_def)

lemma currentQuestion_in:
  "currentQuestion qs s = Some q \<Longrightarrow> q \<in> set qs"
  by (auto simp: currentQuestion_def split: if_splits)

lemma inv_ClickOption:
  assumes "session_inv qs w" "mounted w" "currentQuestion qs (ui w) = Some q"
  shows "session_inv qs (commit w True (handleAnswer m q opt now w))"
proof -
  note p = inv_pending [OF assms(1)] and i = inv_index [OF assms(1)]
    and q = currentQuestion_in [OF assms(3)]
  have t: "autoAdvanceTimer (ui w) \<noteq> Some (nextTimer w)"
    using inv_timer [OF assms(1)] by auto
  show ?thesis
    using assms(1,2) p i q t
    by (cases "autoAdvanceTimer (ui w)")
       (auto simp: session_inv_def commit_parts keys_put wf_obj_put)
qed


lemma inv_ClickPrevious:
  assumes "session_inv qs w" "mounted w" "currentIndex (ui w) \<noteq> 0"
  shows "session_inv qs (commit w False (handlePrevious w))"
  using assms inv_pending [OF assms(1)] inv_index [OF assms(1)]
  by (cases "autoAdvanceTimer (ui w)") (auto simp: session_inv_def commit_parts handlePrevious_def)

lemma inv_ClickSkip:
  assumes "session_inv qs w" "mounted w" "currentIndex (ui w) < int (length qs) - 1"
  shows "session_inv qs (commit w False (handleSkip qs w))"
  using assms inv_pending [OF assms(1)] inv_index [OF assms(1)]
  by (cases "autoAdvanceTimer (ui w)") (auto simp: session_inv_def commit_parts handleSkip_def)

lemma inv_ClickFlag:
  assumes "session_inv qs w" "mounted w"
  shows "session_inv qs (commit w False (toggleFlag q w))"
  using assms by (auto simp: session_inv_def commit_parts)

lemma inv_ClickDot:
  assumes "session_inv qs w" "mounted w" "idx < length qs"
  shows "session_inv qs (commit w False (jumpTo idx w))"
  using assms inv_pending [OF assms(1)]
  by (cases "autoAdvanceTimer (ui w)") (auto simp: session_inv_def commit_parts jumpTo_def)

lemma inv_ClickFinish:
  assumes "session_inv qs w" "mounted w"
  shows "session_inv qs (commit w False (handleFinishClick qs w))"
  using assms inv_pending [OF assms(1)]
  by (cases "autoAdvanceTimer (ui w)") (auto simp: session_inv_def commit_parts handleFinishClick_def Let_def)

lemma inv_setShowConfirmDialog:
  assumes "session_inv qs w" "mounted w"
  shows "session_inv qs (commit w False (setShowConfirmDialog b w))"
  using assms by (auto simp: session_inv_def commit_parts)

lemma inv_ClickFinishNow:
  assumes "session_inv qs w" "mounted w"
  shows "session_inv qs (commit w False (onFinish w))"
  using assms inv_pending [OF assms(1)]
  by (cases "autoAdvanceTimer (ui w)") (auto simp: session_inv_def commit_parts)

lemma inv_TimerFires:
  assumes "session_inv qs w" "mounted w"
    and "find (\<lambda>x. timerId x = t) (pendingTimers w) = Some tm"
  shows "session_inv qs (commit w False (timerCallback qs tm (clearTimeout t w)))"
proof -
  from inv_pending [OF assms(1)] assms(3)
  have p: "pendingTimers w = [tm]" "timerId tm = t" "capturedIndex tm = currentIndex (ui w)"
    by (auto split: if_splits)
  show ?thesis
    using assms(1,2) p inv_index [OF assms(1)]
    by (cases "autoAdvanceTimer (ui w)") (auto simp: session_inv_def commit_parts timerCallback_def)
qed

lemma dispatch_inv:
  assumes "session_inv qs w" "mounted w" "currentQuestion qs (ui w) = Some q"
  shows "session_inv qs (dispatch qs m q e w)"
proof (cases e)
  case (ClickOption opt now)
  then show ?thesis using assms inv_ClickOption by simp
next
  case ClickPrevious
  then show ?thesis using assms inv_ClickPrevious by simp
next
  case ClickSkip
  then show ?thesis using assms inv_ClickSkip by simp
next
  case ClickFlag
  then show ?thesis using assms inv_ClickFlag by simp
next
  case (ClickDot idx)
  then show ?thesis using assms inv_ClickDot by simp
next
  case ClickFinish
  then show ?thesis using assms inv_ClickFinish by simp
next
  case ClickContinueQuiz
  then show ?thesis using assms inv_setShowConfirmDialog by simp
next
  case ClickFinishNow
  then show ?thesis using assms inv_ClickFinishNow by simp
next
  case DialogDismiss
  then show ?thesis using assms inv_setShowConfirmDialog by simp
next
  case (TimerFires t)
  then show ?thesis using assms inv_TimerFires
    by (cases "find (\<lambda>x. timerId x = t) (pendingTimers w)") simp_all
qed

lemma step_inv:
  assumes "session_inv qs w" "step qs m e w = Inr w'"
  shows "session_inv qs w'"
proof (cases "mounted w")
  case False
  have "pendingTimers w = []"
    using inv_pending [OF assms(1)] False by auto
  then have "clearTimeout t w = w" for t by (simp add: clearTimeout_def)
  then have "w' = w" using assms(2) False by (simp add: step_def split: Event.splits)
  then show ?thesis using assms(1) by simp
next
  case True
  then obtain q where q: "currentQuestion qs (ui w) = Some q"
    using inv_index [OF assms(1)] by (auto simp: currentQuestion_def)
  have "w' = dispatch qs m q e w"
    using assms(2) True q by (simp add: step_def render_def split: if_splits)
  then show ?thesis using dispatch_inv [OF assms(1) True q] by simp
qed

lemma step_total:
  assumes "session_inv qs w"
  shows "\<exists>w'. step qs m e w = Inr w'"
proof (cases "mounted w")
  case False
  then show ?thesis by (simp add: step_def split: Event.splits)
next
  case True
  then obtain q where q: "currentQuestion qs (ui w) = Some q"
    using inv_index [OF assms(1)] by (auto simp: currentQuestion_def)
  have "session_inv qs (dispatch qs m q e w)" by (rule dispatch_inv [OF assms True q])
  then have "mounted (dispatch qs m q e w) \<longrightarrow> currentQuestion qs (ui (dispatch qs m q e w)) \<noteq> None"
    by (auto simp: session_inv_def currentQuestion_def)
  then show ?thesis using True q by (auto simp: step_def render_def)
qed

lemma run_inv:
  "session_inv qs w \<Longrightarrow> \<exists>w'. run qs m es w = Inr w' \<and> session_inv qs w'"
proof (induction es arbitrary: w)
  case Nil
  then show ?case by simp
next
  case (Cons e es)
  obtain w1 where s: "step qs m e w = Inr w1" using step_total [OF Cons.prems] by blast
  then have "session_inv qs w1" using step_inv Cons.prems by blast
  then show ?case using Cons.IH s by simp
qed

lemma mount_inv:
  "qs \<noteq> [] \<Longrightarrow> \<exists>w. mount qs store = Inr w \<and> session_inv qs w \<and> mounted w"
  by (simp add: mount_def render_def currentQuestion_def session_inv_def wf_obj_def
      Object_keys_def)

lemma session_reaches_inv:
  assumes "qs \<noteq> []"
  shows "\<exists>w. session qs m store es = Inr w \<and> session_inv qs w"
proof -
  obtain w0 where "mount qs store = Inr w0" "session_inv qs w0"
    using mount_inv [OF assms] by blast
  then show ?thesis using run_inv [of qs w0 m es] by (simp add: session_def)
qed

lemma session_Inr_inv:
  assumes "session qs m store es = Inr w"
  shows "session_inv qs w \<and> qs \<noteq> []"
proof -
  have ne: "qs \<noteq> []"
    using assms by (auto simp: session_def mount_def render_def currentQuestion_def)
  with session_reaches_inv [OF ne, of m store es] assms show ?thesis by simp
qed

section \<open>Example sessions: evaluation\<close>

lemma skips_reach_last:
  "session five_questions Practice [] [ClickSkip, ClickSkip, ClickSkip, ClickSkip, ClickSkip]
     = Inr (fresh_world 4)"
  by code_simp

lemma practice_first_answer:
  "session five_questions Practice [] [ClickOption OptA 10]
     = Inr (first_answer_world OptA 10 1 0 [\<lparr>timerId = 1, delay = 1500, capturedIndex = 0\<rparr>])"
  by code_simp

lemma practice_skip_after_answer:
  "step five_questions Practice ClickSkip
     (first_answer_world OptA 10 1 0 [\<lparr>timerId = 1, delay = 1500, capturedIndex = 0\<rparr>])
     = Inr (first_answer_world OptA 10 1 1 [])"
  by code_simp

lemma scenario_session:
  "session five_questions Practice [] scenario_events = Inr (scenario_world False 0 True)"
  by code_simp

lemma full_session:
  "session five_questions Exam [] full_events = Inr full_world"
  by code_simp

lemma scenario_finish_click:
  "session five_questions Practice [] (scenario_events @ [ClickFinish])
     = Inr (scenario_world True 0 True)"
  by code_simp

section \<open>QuizScreen: the position stays in range\<close>

lemma run_append:
  "run qs m (es @ es') w = (case run qs m es w of Inl err \<Rightarrow> Inl err | Inr w' \<Rightarrow> run qs m es' w')"
  by (induction es arbitrary: w) (auto split: sum.splits)

lemma currentQuestion_cong:
  "currentIndex s' = currentIndex s \<Longrightarrow> currentQuestion qs s' = currentQuestion qs s"
  by (simp add: currentQuestion_def)

lemma answer_at_last:
  assumes "session_inv qs w" "mounted w" "currentQuestion qs (ui w) = Some q"
    and "currentIndex (ui w) = int (length qs) - 1"
    and "m = Exam \<or> \<not> isAnswered q (ui w)"
  shows "\<exists>w1 w2. step qs m (ClickOption opt now) w = Inr w1
    \<and> map timerId (pendingTimers w1) = [nextTimer w]
    \<and> step qs m (TimerFires (nextTimer w)) w1 = Inr w2
    \<and> currentIndex (ui w2) = int (length qs) - 1
    \<and> pendingTimers w2 = []"
proof -
  let ?w1 = "commit w True (handleAnswer m q opt now w)"
  let ?tm = "\<lparr>timerId = nextTimer w, delay = (if m = Practice then 1500 else 500),
              capturedIndex = currentIndex (ui w)\<rparr>"
  have t: "autoAdvanceTimer (ui w) \<noteq> Some (nextTimer w)"
    using inv_timer [OF assms(1)] by auto
  have pend: "pendingTimers ?w1 = [?tm]"
    using inv_pending [OF assms(1)] t inv_timer [OF assms(1)]
    by (cases "autoAdvanceTimer (ui w)") (auto simp: commit_parts)
  have ui1: "currentIndex (ui ?w1) = currentIndex (ui w)" "mounted ?w1"
    "autoAdvanceTimer (ui ?w1) = Some (nextTimer w)"
    using assms(2) by (simp_all add: commit_parts)
  have q1: "currentQuestion qs (ui ?w1) = Some q"
    using assms(3) currentQuestion_cong [OF ui1(1)] by simp
  have s1: "step qs m (ClickOption opt now) w = Inr ?w1"
    using assms(2,3,5) ui1(2) q1 by (auto simp: step_def render_def)
  let ?w2 = "commit ?w1 False (timerCallback qs ?tm (clearTimeout (nextTimer w) ?w1))"
  have cb: "timerCallback qs ?tm (clearTimeout (nextTimer w) ?w1) = clearTimeout (nextTimer w) ?w1"
    using assms(4) by (simp add: timerCallback_def)
  have ui2: "currentIndex (ui ?w2) = currentIndex (ui w)" "mounted ?w2" "pendingTimers ?w2 = []"
    using ui1 pend by (simp_all add: cb commit_parts)
  have q2: "currentQuestion qs (ui ?w2) = Some q"
    using assms(3) currentQuestion_cong [OF ui2(1)] by simp
  have s2: "step qs m (TimerFires (nextTimer w)) ?w1 = Inr ?w2"
    using ui1(2) q1 pend ui2(2) q2 by (simp add: step_def render_def)
  show ?thesis using s1 s2 pend ui2 assms(4) by simp
qed

text \<open>
  Claim C8. For every non-empty list of selected questions of length \<open>n\<close> and every
  sequence of events, no render throws and the position stays in \<open>[0, n - 1]\<close>. Skip
  does nothing at the last question, Previous does nothing at position 0, and the
  timeout scheduled by an answer at the last question fires without an error and
  without moving the position.
\<close>

theorem position_in_range:
  assumes "qs \<noteq> []"
  shows "(\<exists>w. session qs m store es = Inr w
            \<and> 0 \<le> currentIndex (ui w) \<and> currentIndex (ui w) \<le> int (length qs) - 1)
    \<and> (\<forall>w. currentIndex (ui w) = int (length qs) - 1 \<longrightarrow> handleSkip qs w = w)
    \<and> (\<forall>w. currentIndex (ui w) = 0 \<longrightarrow> handlePrevious w = w)
    \<and> (\<forall>w q. session qs m store es = Inr w \<and> mounted w
            \<and> currentIndex (ui w) = int (length qs) - 1
            \<and> currentQuestion qs (ui w) = Some q \<and> (m = Exam \<or> \<not> isAnswered q (ui w))
          \<longrightarrow> (\<exists>w1 w2. step qs m (ClickOption opt now) w = Inr w1
                  \<and> map timerId (pendingTimers w1) = [nextTimer w]
                  \<and> step qs m (TimerFires (nextTimer w)) w1 = Inr w2
                  \<and> currentIndex (ui w2) = int (length qs) - 1
                  \<and> pendingTimers w2 = []))"
proof -
  obtain w where w: "session qs m store es = Inr w" "session_inv qs w"
    using session_reaches_inv [OF assms] by blast
  have a: "\<exists>w. session qs m store es = Inr w
            \<and> 0 \<le> currentIndex (ui w) \<and> currentIndex (ui w) \<le> int (length qs) - 1"
    using w inv_index [OF w(2)] by auto
  have b: "\<forall>w. currentIndex (ui w) = int (length qs) - 1 \<longrightarrow> handleSkip qs w = w"
    by (simp add: handleSkip_def)
  have c: "\<forall>w. currentIndex (ui w) = 0 \<longrightarrow> handlePrevious w = w"
    by (simp add: handlePrevious_def)
  have d: "\<exists>w1 w2. step qs m (ClickOption opt now) w' = Inr w1
                  \<and> map timerId (pendingTimers w1) = [nextTimer w']
                  \<and> step qs m (TimerFires (nextTimer w')) w1 = Inr w2
                  \<and> currentIndex (ui w2) = int (length qs) - 1
                  \<and> pendingTimers w2 = []"
    if "session qs m store es = Inr w' \<and> mounted w'
            \<and> currentIndex (ui w') = int (length qs) - 1
            \<and> currentQuestion qs (ui w') = Some q \<and> (m = Exam \<or> \<not> isAnswered q (ui w'))"
    for w' q
  proof -
    have "session_inv qs w'" using that session_Inr_inv by blast
    then show ?thesis using that answer_at_last by blast
  qed
  show ?thesis using a b c d by blast
qed

theorem position_in_range_witness:
  "five_questions \<noteq> []
   \<and> session five_questions Practice [] [ClickSkip, ClickSkip, ClickSkip, ClickSkip, ClickSkip]
       = Inr (fresh_world 4)
   \<and> 0 \<le> currentIndex (ui (fresh_world 4))
   \<and> currentIndex (ui (fresh_world 4)) \<le> int (length five_questions) - 1
   \<and> handleSkip five_questions (fresh_world 4) = fresh_world 4
   \<and> handlePrevious (fresh_world 0) = fresh_world 0
   \<and> outcome_index (run five_questions Practice [ClickOption OptA 10, TimerFires 1] (fresh_world 4))
       = Some 4"
proof -
  have ne: "five_questions \<noteq> []" by (simp add: five_questions_def)
  note T = position_in_range [OF ne, of Practice "[]"
      "[ClickSkip, ClickSkip, ClickSkip, ClickSkip, ClickSkip]" OptA 10]
  have last: "currentIndex (ui (fresh_world 4)) = int (length five_questions) - 1"
    by (simp add: fresh_world_def five_questions_def)
  have first: "currentIndex (ui (fresh_world 0)) = 0" by (simp add: fresh_world_def)
  have rng: "0 \<le> currentIndex (ui (fresh_world 4))
      \<and> currentIndex (ui (fresh_world 4)) \<le> int (length five_questions) - 1"
    using T skips_reach_last by auto
  have sk: "handleSkip five_questions (fresh_world 4) = fresh_world 4" using T last by blast
  have pr: "handlePrevious (fresh_world 0) = fresh_world 0" using T first by blast
  have pre: "mounted (fresh_world 4)"
    "currentQuestion five_questions (ui (fresh_world 4)) = Some (mk_question 5 OptA)"
    "\<not> isAnswered (mk_question 5 OptA) (ui (fresh_world 4))"
    "nextTimer (fresh_world 4) = 1"
    by code_simp+
  have "\<exists>w1 w2. step five_questions Practice (ClickOption OptA 10) (fresh_world 4) = Inr w1
          \<and> step five_questions Practice (TimerFires (nextTimer (fresh_world 4))) w1 = Inr w2
          \<and> currentIndex (ui w2) = int (length five_questions) - 1"
    using T skips_reach_last last pre(1,2,3) by blast
  then obtain w1 w2 where
    "step five_questions Practice (ClickOption OptA 10) (fresh_world 4) = Inr w1"
    "step five_questions Practice (TimerFires 1) w1 = Inr w2"
    "currentIndex (ui w2) = int (length five_questions) - 1"
    using pre(4) by auto
  then have "outcome_index (run five_questions Practice [ClickOption OptA 10, TimerFires 1] (fresh_world 4))
       = Some 4"
    by (simp add: outcome_index_def five_questions_def)
  then show ?thesis using ne skips_reach_last rng sk pr by blast
qed

section \<open>QuizScreen: no stale timeout\<close>

lemma dispatch_pending_captured:
  assumes "session_inv qs w" "\<forall>t. e \<noteq> TimerFires t"
  shows "\<forall>tm \<in> set (pendingTimers (dispatch qs m q e w)). capturedIndex tm = currentIndex (ui w)"
proof -
  note p = inv_pending [OF assms(1)]
  show ?thesis
    using assms(2) p
    by (cases e; cases "autoAdvanceTimer (ui w)")
       (auto simp: commit_parts handlePrevious_def handleSkip_def jumpTo_def
          handleFinishClick_def Let_def split: if_splits)
qed

lemma fire_nothing_pending:
  assumes "session_inv qs w" "pendingTimers w = []"
  shows "step qs m (TimerFires t) w = Inr w"
proof (cases "mounted w")
  case False
  then show ?thesis using assms(2) by (simp add: step_def clearTimeout_def)
next
  case True
  then obtain q where "currentQuestion qs (ui w) = Some q"
    using inv_index [OF assms(1)] by (auto simp: currentQuestion_def)
  then show ?thesis using True assms(2) by (simp add: step_def render_def)
qed

text \<open>
  Claim C7. In every state of a session, a pending timeout was set at the current
  position. So whenever an event other than the firing of a timeout changes the
  position (Previous, Skip, a navigator dot) or unmounts the component (finishing,
  which precedes a restart), no timeout is pending afterwards, and the firing of any
  earlier timeout then changes nothing.
\<close>

theorem stale_timer_invalidated:
  assumes "session qs m store es = Inr w"
  shows "(\<forall>tm \<in> set (pendingTimers w). mounted w \<and> capturedIndex tm = currentIndex (ui w))
    \<and> (\<forall>e w'. step qs m e w = Inr w' \<and> (\<forall>t. e \<noteq> TimerFires t)
              \<and> (currentIndex (ui w') \<noteq> currentIndex (ui w) \<or> \<not> mounted w')
          \<longrightarrow> pendingTimers w' = [] \<and> (\<forall>t. step qs m (TimerFires t) w' = Inr w'))"
proof -
  have inv: "session_inv qs w" using assms session_Inr_inv by blast
  have a: "\<forall>tm \<in> set (pendingTimers w). mounted w \<and> capturedIndex tm = currentIndex (ui w)"
    using inv by (simp add: session_inv_def)
  have b: "pendingTimers w' = [] \<and> (\<forall>t. step qs m (TimerFires t) w' = Inr w')"
    if s: "step qs m e w = Inr w'" and e: "\<forall>t. e \<noteq> TimerFires t"
      and ch: "currentIndex (ui w') \<noteq> currentIndex (ui w) \<or> \<not> mounted w'"
    for e w'
  proof -
    have inv': "session_inv qs w'" using step_inv [OF inv s] .
    have "pendingTimers w' = []"
    proof (rule ccontr)
      assume "pendingTimers w' \<noteq> []"
      then obtain tm where tm: "tm \<in> set (pendingTimers w')" by (cases "pendingTimers w'") auto
      then have now: "mounted w'" "capturedIndex tm = currentIndex (ui w')"
        using inv' by (simp_all add: session_inv_def)
      have "mounted w"
      proof (rule ccontr)
        assume "\<not> mounted w"
        then have "w' = w" using s e by (cases e) (simp_all add: step_def)
        then show False using now(1) \<open>\<not> mounted w\<close> by simp
      qed
      then obtain q where q: "currentQuestion qs (ui w) = Some q"
        using inv_index [OF inv] by (auto simp: currentQuestion_def)
      have "w' = dispatch qs m q e w"
        using s \<open>mounted w\<close> q by (simp add: step_def render_def split: if_splits)
      then have "capturedIndex tm = currentIndex (ui w)"
        using dispatch_pending_captured [OF inv e] tm by blast
      then show False using now ch by simp
    qed
    then show ?thesis using fire_nothing_pending [OF inv'] by blast
  qed
  show ?thesis using a b by blast
qed

theorem stale_timer_invalidated_witness:
  "session five_questions Practice [] [ClickOption OptA 10]
     = Inr (first_answer_world OptA 10 1 0 [\<lparr>timerId = 1, delay = 1500, capturedIndex = 0\<rparr>])
   \<and> \<lparr>timerId = 1, delay = 1500, capturedIndex = 0\<rparr>
       \<in> set (pendingTimers (first_answer_world OptA 10 1 0
                 [\<lparr>timerId = 1, delay = 1500, capturedIndex = 0\<rparr>]))
   \<and> capturedIndex \<lparr>timerId = 1, delay = 1500, capturedIndex = 0\<rparr>
       = currentIndex (ui (first_answer_world OptA 10 1 0
                 [\<lparr>timerId = 1, delay = 1500, capturedIndex = 0\<rparr>]))
   \<and> step five_questions Practice ClickSkip
        (first_answer_world OptA 10 1 0 [\<lparr>timerId = 1, delay = 1500, capturedIndex = 0\<rparr>])
       = Inr (first_answer_world OptA 10 1 1 [])
   \<and> currentIndex (ui (first_answer_world OptA 10 1 1 []))
       \<noteq> currentIndex (ui (first_answer_world OptA 10 1 0
                 [\<lparr>timerId = 1, delay = 1500, capturedIndex = 0\<rparr>]))
   \<and> pendingTimers (first_answer_world OptA 10 1 1 []) = []
   \<and> step five_questions Practice (TimerFires 1) (first_answer_world OptA 10 1 1 [])
       = Inr (first_answer_world OptA 10 1 1 [])"
proof -
  let ?tm = "\<lparr>timerId = 1, delay = 1500, capturedIndex = 0\<rparr>"
  let ?w1 = "first_answer_world OptA 10 1 0 [?tm]"
  let ?w2 = "first_answer_world OptA 10 1 1 []"
  note T = stale_timer_invalidated [OF practice_first_answer]
  have mem: "?tm \<in> set (pendingTimers ?w1)" by (simp add: first_answer_world_def)
  have cap: "capturedIndex ?tm = currentIndex (ui ?w1)" using T mem by blast
  have ne: "currentIndex (ui ?w2) \<noteq> currentIndex (ui ?w1)" by (simp add: first_answer_world_def)
  have skip: "\<forall>t. ClickSkip \<noteq> TimerFires t" by simp
  have after: "pendingTimers ?w2 = [] \<and> (\<forall>t. step five_questions Practice (TimerFires t) ?w2 = Inr ?w2)"
    using T practice_skip_after_answer ne skip by blast
  show ?thesis using practice_first_answer mem cap practice_skip_after_answer ne after by blast
qed

section \<open>QuizScreen: when an answer can be replaced\<close>

lemma practice_step_keeps:
  assumes "step qs Practice e w = Inr w'" "obj_get (answers (ui w)) k = Some a"
  shows "obj_get (answers (ui w')) k = Some a"
proof (cases "mounted w")
  case False
  then show ?thesis using assms by (cases e) (auto simp: step_def)
next
  case True
  then obtain q where q: "currentQuestion qs (ui w) = Some q"
    using assms(1) by (cases "currentQuestion qs (ui w)") (auto simp: step_def)
  have w': "w' = dispatch qs Practice q e w"
    using assms(1) True q by (simp add: step_def render_def split: if_splits)
  show ?thesis
  proof (cases e)
    case (ClickOption opt now)
    show ?thesis
    proof (cases "isAnswered q (ui w)")
      case True
      then show ?thesis using w' ClickOption assms(2) by simp
    next
      case False
      then have "k \<noteq> qid q" using assms(2) by (auto simp: isAnswered_def)
      then show ?thesis
        using w' ClickOption assms(2) False by (simp add: commit_parts obj_get_put)
    qed
  next
    case (TimerFires t)
    then show ?thesis using w' assms(2)
      by (cases "find (\<lambda>x. timerId x = t) (pendingTimers w)")
         (simp_all add: commit_parts timerCallback_def)
  qed (use w' assms(2) in \<open>simp_all add: commit_parts handlePrevious_def handleSkip_def
        jumpTo_def handleFinishClick_def Let_def\<close>)
qed

lemma practice_run_keeps:
  "run qs Practice es w = Inr w' \<Longrightarrow> obj_get (answers (ui w)) k = Some a \<Longrightarrow>
     obj_get (answers (ui w')) k = Some a"
proof (induction es arbitrary: w)
  case Nil
  then show ?case by simp
next
  case (Cons e es)
  then obtain w1 where s: "step qs Practice e w = Inr w1" and r: "run qs Practice es w1 = Inr w'"
    by (cases "step qs Practice e w") auto
  show ?case using Cons.IH [OF r] practice_step_keeps [OF s Cons.prems(2)] by simp
qed

lemma session_append:
  "session qs m store es = Inr w \<Longrightarrow> session qs m store (es @ es') = run qs m es' w"
  by (auto simp: session_def run_append split: sum.splits)

text \<open>
  Claim C5, as the code has it. In practice mode a question is written once: the
  option buttons of an answered question are disabled, and whatever the user does
  afterwards, the record stored for a question id stays the one stored first. In exam
  mode the option buttons stay enabled: a click on an option of the current question
  stores a record with that option, replacing the record the question already had.
\<close>

theorem single_write_in_practice:
  "(session qs Practice store es = Inr w \<and> obj_get (answers (ui w)) k = Some a
      \<and> session qs Practice store (es @ es') = Inr w'
    \<longrightarrow> obj_get (answers (ui w')) k = Some a)
   \<and> (isAnswered q (ui w) \<longrightarrow> dispatch qs Practice q (ClickOption opt now) w = w)
   \<and> (mounted w \<and> currentQuestion qs (ui w) = Some q
        \<and> step qs Exam (ClickOption opt now) w = Inr w'
    \<longrightarrow> obj_get (answers (ui w')) (qid q) =
          Some \<lparr>questionId = qid q, selectedOption = Some opt,
                isCorrect = (opt = correctAnswer q), timestamp = now\<rparr>)"
proof (intro conjI impI)
  assume h: "session qs Practice store es = Inr w \<and> obj_get (answers (ui w)) k = Some a
      \<and> session qs Practice store (es @ es') = Inr w'"
  then have "run qs Practice es' w = Inr w'" using session_append [of qs Practice store es w es'] by simp
  then show "obj_get (answers (ui w')) k = Some a" using h practice_run_keeps by blast
next
  assume "isAnswered q (ui w)"
  then show "dispatch qs Practice q (ClickOption opt now) w = w" by simp
next
  assume h: "mounted w \<and> currentQuestion qs (ui w) = Some q
        \<and> step qs Exam (ClickOption opt now) w = Inr w'"
  then have m: "mounted w" and cq: "currentQuestion qs (ui w) = Some q"
    and st: "step qs Exam (ClickOption opt now) w = Inr w'"
    by simp_all
  have "w' = commit w True (handleAnswer Exam q opt now w)"
    using st m cq by (simp add: step_def render_def split: if_splits)
  then show "obj_get (answers (ui w')) (qid q) =
          Some \<lparr>questionId = qid q, selectedOption = Some opt,
                isCorrect = (opt = correctAnswer q), timestamp = now\<rparr>"
    by (simp add: commit_parts obj_get_put)
qed

text \<open>
  The claim as stated, single-write in both modes, fails in exam mode: in a session
  over \<open>five_questions\<close> the first click stores option A for question 1 and a second
  click, on option B, replaces it.
\<close>

theorem single_write_counterexample:
  "selected_in (session five_questions Exam [] [ClickOption OptA 10]) 1 = Some OptA
   \<and> selected_in (session five_questions Exam [] [ClickOption OptA 10, ClickOption OptB 11]) 1
       = Some OptB"
  by code_simp

theorem single_write_in_practice_witness:
  "session five_questions Practice [] [ClickOption OptA 10]
     = Inr (first_answer_world OptA 10 1 0 [\<lparr>timerId = 1, delay = 1500, capturedIndex = 0\<rparr>])
   \<and> obj_get (answers (ui (first_answer_world OptA 10 1 0
                  [\<lparr>timerId = 1, delay = 1500, capturedIndex = 0\<rparr>]))) 1
       = Some (mk_answer 1 OptA True 10)
   \<and> session five_questions Practice []
       ([ClickOption OptA 10] @ [ClickOption OptB 11, TimerFires 1, ClickPrevious, ClickOption OptC 12])
       = Inr (first_answer_world OptA 10 1 0 [])
   \<and> obj_get (answers (ui (first_answer_world OptA 10 1 0 []))) 1 = Some (mk_answer 1 OptA True 10)
   \<and> isAnswered (mk_question 1 OptA) (ui (first_answer_world OptA 10 1 0 []))
   \<and> dispatch five_questions Practice (mk_question 1 OptA) (ClickOption OptB 11)
        (first_answer_world OptA 10 1 0 []) = first_answer_world OptA 10 1 0 []
   \<and> mounted (first_answer_world OptA 10 1 0 [])
   \<and> currentQuestion five_questions (ui (first_answer_world OptA 10 1 0 [])) = Some (mk_question 1 OptA)
   \<and> step five_questions Exam (ClickOption OptB 11) (first_answer_world OptA 10 1 0 [])
       = Inr (first_answer_world OptB 11 2 0 [\<lparr>timerId = 2, delay = 500, capturedIndex = 0\<rparr>])
   \<and> obj_get (answers (ui (first_answer_world OptB 11 2 0
                  [\<lparr>timerId = 2, delay = 500, capturedIndex = 0\<rparr>]))) 1
       = Some (mk_answer 1 OptB False 11)"
proof -
  let ?w1 = "first_answer_world OptA 10 1 0 [\<lparr>timerId = 1, delay = 1500, capturedIndex = 0\<rparr>]"
  let ?w2 = "first_answer_world OptA 10 1 0 []"
  let ?w3 = "first_answer_world OptB 11 2 0 [\<lparr>timerId = 2, delay = 500, capturedIndex = 0\<rparr>]"
  have a: "obj_get (answers (ui ?w1)) 1 = Some (mk_answer 1 OptA True 10)" by code_simp
  have b: "session five_questions Practice []
       ([ClickOption OptA 10] @ [ClickOption OptB 11, TimerFires 1, ClickPrevious, ClickOption OptC 12])
       = Inr ?w2" by code_simp
  have c: "isAnswered (mk_question 1 OptA) (ui ?w2)" by code_simp
  have d: "mounted ?w2" "currentQuestion five_questions (ui ?w2) = Some (mk_question 1 OptA)"
    "step five_questions Exam (ClickOption OptB 11) ?w2 = Inr ?w3"
    by code_simp+
  have e: "mk_answer 1 OptB False 11 =
      \<lparr>questionId = qid (mk_question 1 OptA), selectedOption = Some OptB,
       isCorrect = (OptB = correctAnswer (mk_question 1 OptA)), timestamp = 11\<rparr>"
    by (simp add: mk_answer_def mk_question_def)
  note T1 = single_write_in_practice [where qs = five_questions and store = "[]"
      and es = "[ClickOption OptA 10]" and w = ?w1 and k = 1 and a = "mk_answer 1 OptA True 10"
      and es' = "[ClickOption OptB 11, TimerFires 1, ClickPrevious, ClickOption OptC 12]"
      and w' = ?w2]
  note T2 = single_write_in_practice [where w = ?w2 and q = "mk_question 1 OptA"
      and qs = five_questions and opt = OptB and now = 11]
  note T3 = single_write_in_practice [where w = ?w2 and w' = ?w3 and q = "mk_question 1 OptA"
      and qs = five_questions and opt = OptB and now = 11]
  have r1: "obj_get (answers (ui ?w2)) 1 = Some (mk_answer 1 OptA True 10)"
    using T1 practice_first_answer a b by blast
  have r2: "dispatch five_questions Practice (mk_question 1 OptA) (ClickOption OptB 11) ?w2 = ?w2"
    using T2 c by blast
  have r3: "obj_get (answers (ui ?w3)) 1 = Some (mk_answer 1 OptB False 11)"
  proof -
    have "obj_get (answers (ui ?w3)) (qid (mk_question 1 OptA)) = Some (mk_answer 1 OptB False 11)"
      unfolding e using T3 d by blast
    then show ?thesis by (simp add: mk_question_def)
  qed
  show ?thesis using practice_first_answer a b r1 c r2 d r3 by blast
qed

section \<open>QuizScreen: finishing\<close>

lemma allAnswered_iff:
  assumes "wf_obj (answers s)" "set (Object_keys (answers s)) \<subseteq> qid ` set qs"
    and "distinct (map qid qs)"
  shows "allAnswered qs s \<longleftrightarrow> (\<forall>q \<in> set qs. obj_get (answers s) (qid q) \<noteq> None)"
proof -
  let ?K = "set (Object_keys (answers s))"
  have ck: "card ?K = length (Object_keys (answers s))"
    using keys_card [OF assms(1)] by (simp add: Object_keys_def)
  have cq: "card (qid ` set qs) = length qs"
    using assms(3) by (metis distinct_card length_map set_map)
  have dom: "obj_get (answers s) k \<noteq> None \<longleftrightarrow> k \<in> ?K" for k
    by (simp add: obj_get_def Object_keys_def map_of_eq_None_iff)
  show ?thesis
  proof
    assume "allAnswered qs s"
    then have "card ?K = card (qid ` set qs)"
      using ck cq by (simp add: allAnswered_def answeredCount_def)
    then have "?K = qid ` set qs"
      using assms(2) by (simp add: card_subset_eq)
    then show "\<forall>q \<in> set qs. obj_get (answers s) (qid q) \<noteq> None"
      using dom by blast
  next
    assume "\<forall>q \<in> set qs. obj_get (answers s) (qid q) \<noteq> None"
    then have "qid ` set qs \<subseteq> ?K" using dom by blast
    then have "?K = qid ` set qs" using assms(2) by blast
    then show "allAnswered qs s"
      using ck cq by (simp add: allAnswered_def answeredCount_def)
  qed
qed

lemma finish_calls:
  assumes "session_inv qs w" "step qs m e w = Inr w'" "onFinishCalls w' \<noteq> onFinishCalls w"
  shows "onFinishCalls w' = Suc (onFinishCalls w) \<and> \<not> mounted w'
    \<and> (e = ClickFinishNow \<and> showConfirmDialog (ui w)
        \<or> e = ClickFinish \<and> allAnswered qs (ui w))"
proof (cases "mounted w")
  case False
  then show ?thesis using assms(2,3) by (cases e) (auto simp: step_def)
next
  case True
  then obtain q where q: "currentQuestion qs (ui w) = Some q"
    using inv_index [OF assms(1)] by (auto simp: currentQuestion_def)
  have w': "w' = dispatch qs m q e w"
    using assms(2) True q by (simp add: step_def render_def split: if_splits)
  show ?thesis
  proof (cases e)
    case (TimerFires t)
    then show ?thesis using w' assms(3)
      by (cases "find (\<lambda>x. timerId x = t) (pendingTimers w)")
         (auto simp: commit_parts timerCallback_def split: if_splits)
  qed (use w' assms(3) True in \<open>auto simp: commit_parts handlePrevious_def handleSkip_def
        jumpTo_def handleFinishClick_def Let_def split: if_splits\<close>)
qed

text \<open>
  Claim C6. In every state of a session, \<open>handleFinishClick\<close> writes the whole answers
  object to the session store under the key \<open>quizAnswers\<close> and leaves no timeout
  pending. Then, if some selected question has no answer record, it does not call
  \<^verbatim>\<open>onFinish\<close> and opens the confirmation dialog; if every selected question has one,
  it calls \<^verbatim>\<open>onFinish\<close>. Over the whole session \<^verbatim>\<open>onFinish\<close> is called only by the
  dialog's "Finish Now" button while the dialog is open, or by the finish button when
  every question is answered; and "Finish Now" in the open dialog does call it.
  (Question ids are pairwise distinct.)
\<close>

theorem finish_requires_confirmation:
  assumes "session qs m store es = Inr w" and "distinct (map qid qs)"
  shows "obj_get (localStorage (handleFinishClick qs w)) ''quizAnswers'' = Some (answers (ui w))
    \<and> pendingTimers (handleFinishClick qs w) = []
    \<and> ((\<exists>q \<in> set qs. obj_get (answers (ui w)) (qid q) = None)
        \<longrightarrow> onFinishCalls (handleFinishClick qs w) = onFinishCalls w
            \<and> showConfirmDialog (ui (handleFinishClick qs w)))
    \<and> ((\<forall>q \<in> set qs. obj_get (answers (ui w)) (qid q) \<noteq> None)
        \<longrightarrow> onFinishCalls (handleFinishClick qs w) = Suc (onFinishCalls w))
    \<and> (\<forall>e w'. step qs m e w = Inr w' \<and> onFinishCalls w' \<noteq> onFinishCalls w
        \<longrightarrow> onFinishCalls w' = Suc (onFinishCalls w) \<and> \<not> mounted w'
            \<and> (e = ClickFinishNow \<and> showConfirmDialog (ui w)
                \<or> e = ClickFinish \<and> (\<forall>q \<in> set qs. obj_get (answers (ui w)) (qid q) \<noteq> None)))
    \<and> (mounted w \<and> showConfirmDialog (ui w)
        \<longrightarrow> (\<exists>w'. step qs m ClickFinishNow w = Inr w'
                  \<and> onFinishCalls w' = Suc (onFinishCalls w) \<and> \<not> mounted w'))"
proof -
  have inv: "session_inv qs w" using assms(1) session_Inr_inv by blast
  have all: "allAnswered qs (ui w) \<longleftrightarrow> (\<forall>q \<in> set qs. obj_get (answers (ui w)) (qid q) \<noteq> None)"
    using inv assms(2) by (intro allAnswered_iff) (simp_all add: session_inv_def)
  have a: "obj_get (localStorage (handleFinishClick qs w)) ''quizAnswers'' = Some (answers (ui w))"
    by (simp add: handleFinishClick_def Let_def obj_get_put)
  have b: "pendingTimers (handleFinishClick qs w) = []"
    using inv_pending [OF inv]
    by (cases "autoAdvanceTimer (ui w)") (auto simp: handleFinishClick_def Let_def)
  have c: "onFinishCalls (handleFinishClick qs w) = onFinishCalls w
            \<and> showConfirmDialog (ui (handleFinishClick qs w))"
    if "\<exists>q \<in> set qs. obj_get (answers (ui w)) (qid q) = None"
    using that all by (auto simp: handleFinishClick_def Let_def)
  have d: "onFinishCalls (handleFinishClick qs w) = Suc (onFinishCalls w)"
    if "\<forall>q \<in> set qs. obj_get (answers (ui w)) (qid q) \<noteq> None"
    using that all by (simp add: handleFinishClick_def Let_def)
  have e: "onFinishCalls w' = Suc (onFinishCalls w) \<and> \<not> mounted w'
            \<and> (e = ClickFinishNow \<and> showConfirmDialog (ui w)
                \<or> e = ClickFinish \<and> (\<forall>q \<in> set qs. obj_get (answers (ui w)) (qid q) \<noteq> None))"
    if "step qs m e w = Inr w' \<and> onFinishCalls w' \<noteq> onFinishCalls w" for e w'
    using finish_calls [OF inv, of m e w'] that all by blast
  have f: "\<exists>w'. step qs m ClickFinishNow w = Inr w'
                  \<and> onFinishCalls w' = Suc (onFinishCalls w) \<and> \<not> mounted w'"
    if "mounted w \<and> showConfirmDialog (ui w)"
  proof -
    obtain q where q: "currentQuestion qs (ui w) = Some q"
      using inv_index [OF inv] by (auto simp: currentQuestion_def)
    have "step qs m ClickFinishNow w = Inr (commit w False (onFinish w))"
      using that q by (simp add: step_def render_def commit_parts)
    then show ?thesis by (simp add: commit_parts)
  qed
  show ?thesis using a b c d e f by blast
qed

theorem finish_requires_confirmation_witness:
  "session five_questions Practice [] scenario_events = Inr (scenario_world False 0 True)
   \<and> distinct (map qid five_questions)
   \<and> obj_get (localStorage (handleFinishClick five_questions (scenario_world False 0 True)))
        ''quizAnswers'' = Some three_answers
   \<and> pendingTimers (handleFinishClick five_questions (scenario_world False 0 True)) = []
   \<and> mk_question 3 OptC \<in> set five_questions
   \<and> obj_get (answers (ui (scenario_world False 0 True))) (qid (mk_question 3 OptC)) = None
   \<and> onFinishCalls (handleFinishClick five_questions (scenario_world False 0 True)) = 0
   \<and> showConfirmDialog (ui (handleFinishClick five_questions (scenario_world False 0 True)))
   \<and> session five_questions Exam [] full_events = Inr full_world
   \<and> allAnswered five_questions (ui full_world)
   \<and> onFinishCalls (handleFinishClick five_questions full_world) = 1
   \<and> mounted (scenario_world True 0 True) \<and> showConfirmDialog (ui (scenario_world True 0 True))
   \<and> step five_questions Practice ClickFinishNow (scenario_world True 0 True)
        = Inr (scenario_world True 1 False)
   \<and> \<not> mounted (scenario_world True 1 False)"
proof -
  let ?w = "scenario_world False 0 True"
  let ?d = "scenario_world True 0 True"
  let ?f = "scenario_world True 1 False"
  have dist: "distinct (map qid five_questions)" by code_simp
  note T1 = finish_requires_confirmation [OF scenario_session dist]
    and T2 = finish_requires_confirmation [OF full_session dist]
    and T3 = finish_requires_confirmation [OF scenario_finish_click dist]
  have ans: "answers (ui ?w) = three_answers" "onFinishCalls ?w = 0"
    by (simp_all add: scenario_world_def)
  have m3: "mk_question 3 OptC \<in> set five_questions" by (simp add: five_questions_def)
  have n3: "obj_get (answers (ui ?w)) (qid (mk_question 3 OptC)) = None" by code_simp
  have a: "obj_get (localStorage (handleFinishClick five_questions ?w)) ''quizAnswers''
             = Some three_answers"
    "pendingTimers (handleFinishClick five_questions ?w) = []"
    using T1 ans by simp_all
  have b: "onFinishCalls (handleFinishClick five_questions ?w) = 0"
    "showConfirmDialog (ui (handleFinishClick five_questions ?w))"
    using T1 m3 n3 ans(2) by auto
  have allq: "\<forall>q \<in> set five_questions. obj_get (answers (ui full_world)) (qid q) \<noteq> None"
    by code_simp
  have c: "onFinishCalls (handleFinishClick five_questions full_world) = 1"
  proof -
    have "onFinishCalls (handleFinishClick five_questions full_world) = Suc (onFinishCalls full_world)"
      using T2 allq by blast
    then show ?thesis by (simp add: full_world_def)
  qed
  have md: "mounted ?d" "showConfirmDialog (ui ?d)" by (simp_all add: scenario_world_def)
  have st: "step five_questions Practice ClickFinishNow ?d = Inr ?f" by code_simp
  have e: "\<not> mounted ?f"
  proof -
    have "onFinishCalls ?f \<noteq> onFinishCalls ?d" by (simp add: scenario_world_def)
    then show ?thesis using T3 st by blast
  qed
  have alla: "allAnswered five_questions (ui full_world)" by code_simp
  show ?thesis using scenario_session dist a m3 n3 b full_session alla c md st e by blast
qed

end
